theory Spec2Isabelle
  imports Complex_Main "HOL-Library.Finite_Map"
begin

section \<open>Reading tracker (src/utils/trackerUtils.ts)\<close>

subsection \<open>Values and the persisted item\<close>

text \<open>
  \<^verbatim>\<open>ReadingStatus = Record<string, Record<string, boolean>>\<close> is what the tracker is typed
  over, but \<^verbatim>\<open>getReadingStatus\<close> returns whatever \<^verbatim>\<open>JSON.parse\<close> makes of the stored
  text, unchecked. The stored values of the model are the JSON values built from
  objects, booleans and \<^verbatim>\<open>null\<close>: every reading status is one of them, and so is every
  value the tracker writes. A stored text that parses to a number, a string or an array
  is outside the model; no statement below is about one. An object is the finite map of
  its own properties (all of them writable, enumerable and configurable, as
  \<^verbatim>\<open>JSON.parse\<close> and an assignment create them; key order is not modelled).
\<close>

datatype jsvalue = JNull | JBool bool | JObj "(string, jsvalue) fmap"

datatype js_error = SyntaxError | TypeError

text \<open>
  The item stored under \<^verbatim>\<open>TRACKER_STORAGE_KEY\<close>, up to what \<^verbatim>\<open>JSON.parse\<close> makes of it:
  no item (\<^verbatim>\<open>getItem\<close> returns \<^verbatim>\<open>null\<close>), the empty string, a non-empty text that
  \<^verbatim>\<open>JSON.parse\<close> rejects, or a text that parses to a value. \<^verbatim>\<open>localStorage\<close> itself is
  taken to be available and \<^verbatim>\<open>setItem\<close> to succeed.
\<close>

datatype stored = Absent | Empty | Malformed | Encodes jsvalue

definition JSON_parse :: "stored \<Rightarrow> js_error + jsvalue" where
  "JSON_parse st = (case st of Encodes v \<Rightarrow> Inr v | _ \<Rightarrow> Inl SyntaxError)"

text \<open>
  \<^verbatim>\<open>JSON.stringify\<close> writes the own enumerable properties. It would call a function found
  under \<^verbatim>\<open>toJSON\<close>; the stored values hold no function, and \<^verbatim>\<open>Object.prototype\<close> has no
  such member unless the tracker itself writes \<^verbatim>\<open>true\<close> there, which is not callable.
\<close>

definition JSON_stringify :: "jsvalue \<Rightarrow> stored" where
  "JSON_stringify v = Encodes v"

text \<open>Truthiness of an own property that was read; \<open>None\<close> is \<^verbatim>\<open>undefined\<close>.\<close>

fun truthy :: "jsvalue option \<Rightarrow> bool" where
  "truthy None = False"
| "truthy (Some JNull) = False"
| "truthy (Some (JBool b)) = b"
| "truthy (Some (JObj m)) = True"

subsection \<open>The built-in objects\<close>

text \<open>
  \<^verbatim>\<open>status[book]\<close> and \<^verbatim>\<open>status[book][chapter]\<close> are ordinary property reads: a key that
  is not an own property is looked up along the prototype chain. An object made by
  \<^verbatim>\<open>JSON.parse\<close> or by \<^verbatim>\<open>{}\<close> inherits from \<^verbatim>\<open>Object.prototype\<close>, a boolean from
  \<^verbatim>\<open>Boolean.prototype\<close> and then \<^verbatim>\<open>Object.prototype\<close>, a built-in function from
  \<^verbatim>\<open>Function.prototype\<close> and then \<^verbatim>\<open>Object.prototype\<close>. So \<^verbatim>\<open>status[book]\<close> can be a
  built-in object, and then the write and the delete of the tracker land on that
  object, which every later call shares. These objects are state, next to the stored
  item.

  A property of one of the two prototype objects is a data property, holding a
  built-in function (named by its path) or the \<^verbatim>\<open>true\<close> that the tracker wrote, with its
  \<^verbatim>\<open>[[Enumerable]]\<close> attribute (these properties are all writable and configurable), or
  it is the accessor \<^verbatim>\<open>__proto__\<close>, whose getter returns the prototype of the receiver
  and whose setter ignores a value that is not an object.
\<close>

datatype pvalue = PFunction string | PTrue

datatype pproperty = PData pvalue bool | PProtoAccessor

text \<open>
  A property of a built-in function or of \<^verbatim>\<open>Function.prototype\<close> is a data property
  with a value (of which only the truthiness is ever observed) and the attributes
  \<^verbatim>\<open>[[Writable]]\<close>, \<^verbatim>\<open>[[Enumerable]]\<close>, \<^verbatim>\<open>[[Configurable]]\<close>, or an accessor whose getter
  and setter are \<^verbatim>\<open>%ThrowTypeError%\<close> (\<^verbatim>\<open>caller\<close> and \<^verbatim>\<open>arguments\<close>).
\<close>

datatype fvalue = FNumber nat | FString string | FObject | FTrue

datatype fproperty = FData fvalue bool bool bool | FThrowTypeError

record realm =
  Object_prototype :: "(string, pproperty) fmap"
  Boolean_prototype :: "(string, pproperty) fmap"
  Function_prototype :: "(string, fproperty) fmap"
  function_objects :: "(string, (string, fproperty) fmap) fmap"

definition own_properties :: "realm \<Rightarrow> string \<Rightarrow> (string, fproperty) fmap" where
  "own_properties R f = (case fmlookup (function_objects R) f of None \<Rightarrow> fmempty | Some t \<Rightarrow> t)"

fun truthy_fvalue :: "fvalue \<Rightarrow> bool" where
  "truthy_fvalue (FNumber n) = (n \<noteq> 0)"
| "truthy_fvalue (FString s) = (s \<noteq> [])"
| "truthy_fvalue FObject = True"
| "truthy_fvalue FTrue = True"

text \<open>The first object of a chain that has the key as an own property.\<close>

fun find_property :: "(string, 'p) fmap list \<Rightarrow> string \<Rightarrow> 'p option" where
  "find_property [] k = None"
| "find_property (t # ts) k =
     (case fmlookup t k of Some p \<Rightarrow> Some p | None \<Rightarrow> find_property ts k)"

text \<open>The prototype objects behind a boolean, and behind a stored value.\<close>

definition boolean_chain :: "realm \<Rightarrow> (string, pproperty) fmap list" where
  "boolean_chain R = [Boolean_prototype R, Object_prototype R]"

definition chain :: "realm \<Rightarrow> jsvalue \<Rightarrow> (string, pproperty) fmap list" where
  "chain R v = (case v of JNull \<Rightarrow> [] | JBool b \<Rightarrow> boolean_chain R | JObj m \<Rightarrow> [Object_prototype R])"

definition own_property :: "jsvalue \<Rightarrow> string \<Rightarrow> jsvalue option" where
  "own_property v k = (case v of JObj m \<Rightarrow> fmlookup m k | _ \<Rightarrow> None)"

datatype prototype_object = ObjectPrototype | BooleanPrototype

definition prototype_of :: "jsvalue \<Rightarrow> prototype_object" where
  "prototype_of v = (case v of JBool b \<Rightarrow> BooleanPrototype | _ \<Rightarrow> ObjectPrototype)"

text \<open>
  What \<^verbatim>\<open>status[book]\<close> evaluates to: \<^verbatim>\<open>undefined\<close>, an own property of \<^verbatim>\<open>status\<close>, the
  \<^verbatim>\<open>true\<close> written to a prototype object earlier, a prototype object (through the
  getter of \<^verbatim>\<open>__proto__\<close>), or a built-in function.
\<close>

datatype target =
    TUndefined
  | TOwn jsvalue
  | TTrue
  | TPrototype prototype_object
  | TFunction string

fun truthy_target :: "target \<Rightarrow> bool" where
  "truthy_target TUndefined = False"
| "truthy_target (TOwn v) = truthy (Some v)"
| "truthy_target TTrue = True"
| "truthy_target (TPrototype p) = True"
| "truthy_target (TFunction f) = True"

definition table :: "realm \<Rightarrow> prototype_object \<Rightarrow> (string, pproperty) fmap" where
  "table R p = (case p of ObjectPrototype \<Rightarrow> Object_prototype R
                        | BooleanPrototype \<Rightarrow> Boolean_prototype R)"

definition parents :: "realm \<Rightarrow> prototype_object \<Rightarrow> (string, pproperty) fmap list" where
  "parents R p = (case p of ObjectPrototype \<Rightarrow> [] | BooleanPrototype \<Rightarrow> [Object_prototype R])"

definition update_table :: "realm \<Rightarrow> prototype_object \<Rightarrow> (string, pproperty) fmap \<Rightarrow> realm" where
  "update_table R p t = (case p of ObjectPrototype \<Rightarrow> R\<lparr>Object_prototype := t\<rparr>
                                 | BooleanPrototype \<Rightarrow> R\<lparr>Boolean_prototype := t\<rparr>)"

definition update_function :: "realm \<Rightarrow> string \<Rightarrow> (string, fproperty) fmap \<Rightarrow> realm" where
  "update_function R f t = R\<lparr>function_objects := fmupd f t (function_objects R)\<rparr>"

subsection \<open>Property access in strict mode\<close>

text \<open>
  The file is an ES module, hence strict: a write that cannot be done raises TypeError.

  \<^verbatim>\<open>status[book]\<close>: reading a property of \<^verbatim>\<open>null\<close> raises; otherwise the own property, or
  the first one found along the chain.
\<close>

definition get_prop :: "realm \<Rightarrow> jsvalue \<Rightarrow> string \<Rightarrow> js_error + target" where
  "get_prop R status book =
     (case status of
        JNull \<Rightarrow> Inl TypeError
      | _ \<Rightarrow>
          (case own_property status book of
             Some v \<Rightarrow> Inr (TOwn v)
           | None \<Rightarrow>
               (case find_property (chain R status) book of
                  None \<Rightarrow> Inr TUndefined
                | Some (PData PTrue e) \<Rightarrow> Inr TTrue
                | Some (PData (PFunction f) e) \<Rightarrow> Inr (TFunction f)
                | Some PProtoAccessor \<Rightarrow> Inr (TPrototype (prototype_of status)))))"

text \<open>
  The truthiness of \<^verbatim>\<open>status[book][chapter]\<close>, where \<open>t\<close> is the value of \<^verbatim>\<open>status[book]\<close>.
  An inherited data property holds a function or \<^verbatim>\<open>true\<close>; the getter of \<^verbatim>\<open>__proto__\<close>
  returns the prototype of the receiver, which is \<^verbatim>\<open>null\<close> only for \<^verbatim>\<open>Object.prototype\<close>.
\<close>

fun get_flag :: "realm \<Rightarrow> target \<Rightarrow> string \<Rightarrow> js_error + bool" where
  "get_flag R TUndefined c = Inl TypeError"
| "get_flag R (TOwn v) c =
     (case v of
        JNull \<Rightarrow> Inl TypeError
      | _ \<Rightarrow> (case own_property v c of
                Some x \<Rightarrow> Inr (truthy (Some x))
              | None \<Rightarrow> Inr (find_property (chain R v) c \<noteq> None)))"
| "get_flag R TTrue c = Inr (find_property (boolean_chain R) c \<noteq> None)"
| "get_flag R (TPrototype p) c =
     (case find_property (table R p # parents R p) c of
        None \<Rightarrow> Inr False
      | Some (PData v e) \<Rightarrow> Inr True
      | Some PProtoAccessor \<Rightarrow> Inr (p \<noteq> ObjectPrototype))"
| "get_flag R (TFunction f) c =
     (case find_property [own_properties R f, Function_prototype R] c of
        Some (FData v w e cf) \<Rightarrow> Inr (truthy_fvalue v)
      | Some FThrowTypeError \<Rightarrow> Inl TypeError
      | None \<Rightarrow> Inr (fmlookup (Object_prototype R) c \<noteq> None))"

text \<open>
  An object of the status is changed in place, so the change is seen in \<^verbatim>\<open>status\<close>: the
  new inner object is put back under \<^verbatim>\<open>book\<close>.
\<close>

definition put_own :: "jsvalue \<Rightarrow> string \<Rightarrow> jsvalue \<Rightarrow> jsvalue" where
  "put_own status book v = (case status of JObj m \<Rightarrow> JObj (fmupd book v m) | _ \<Rightarrow> status)"

text \<open>
  \<^verbatim>\<open>status[book][chapter] = true\<close>. An own writable property is overwritten. Otherwise
  the chain decides: an inherited \<^verbatim>\<open>__proto__\<close> calls the setter, which ignores \<^verbatim>\<open>true\<close>;
  an inherited read-only property or a throwing setter raises; in every other case a
  new own property is created on the receiver, which raises when the receiver is a
  boolean. The status and the built-in objects after the write are returned.
\<close>

fun set_flag :: "realm \<Rightarrow> jsvalue \<Rightarrow> string \<Rightarrow> target \<Rightarrow> string \<Rightarrow> js_error + jsvalue \<times> realm" where
  "set_flag R status book TUndefined c = Inl TypeError"
| "set_flag R status book (TOwn v) c =
     (case v of
        JNull \<Rightarrow> Inl TypeError
      | JBool b \<Rightarrow>
          if find_property (boolean_chain R) c = Some PProtoAccessor
          then Inr (status, R) else Inl TypeError
      | JObj cm \<Rightarrow>
          if fmlookup cm c = None \<and> fmlookup (Object_prototype R) c = Some PProtoAccessor
          then Inr (status, R)
          else Inr (put_own status book (JObj (fmupd c (JBool True) cm)), R))"
| "set_flag R status book TTrue c =
     (if find_property (boolean_chain R) c = Some PProtoAccessor
      then Inr (status, R) else Inl TypeError)"
| "set_flag R status book (TPrototype p) c =
     (case fmlookup (table R p) c of
        Some PProtoAccessor \<Rightarrow> Inr (status, R)
      | Some (PData v e) \<Rightarrow> Inr (status, update_table R p (fmupd c (PData PTrue e) (table R p)))
      | None \<Rightarrow>
          if find_property (parents R p) c = Some PProtoAccessor
          then Inr (status, R)
          else Inr (status, update_table R p (fmupd c (PData PTrue True) (table R p))))"
| "set_flag R status book (TFunction f) c =
     (case fmlookup (own_properties R f) c of
        Some (FData v w e cf) \<Rightarrow>
          if w
          then Inr (status, update_function R f (fmupd c (FData FTrue w e cf) (own_properties R f)))
          else Inl TypeError
      | Some FThrowTypeError \<Rightarrow> Inl TypeError
      | None \<Rightarrow>
          (case fmlookup (Function_prototype R) c of
             Some (FData v w e cf) \<Rightarrow>
               if w
               then Inr (status, update_function R f
                           (fmupd c (FData FTrue True True True) (own_properties R f)))
               else Inl TypeError
           | Some FThrowTypeError \<Rightarrow> Inl TypeError
           | None \<Rightarrow>
               if fmlookup (Object_prototype R) c = Some PProtoAccessor
               then Inr (status, R)
               else Inr (status, update_function R f
                           (fmupd c (FData FTrue True True True) (own_properties R f)))))"

text \<open>
  \<^verbatim>\<open>delete status[book][chapter]\<close> removes an own property of the receiver and nothing
  else; it raises on an own property that is not configurable.
\<close>

fun delete_flag :: "realm \<Rightarrow> jsvalue \<Rightarrow> string \<Rightarrow> target \<Rightarrow> string \<Rightarrow> js_error + jsvalue \<times> realm" where
  "delete_flag R status book TUndefined c = Inl TypeError"
| "delete_flag R status book (TOwn v) c =
     (case v of
        JNull \<Rightarrow> Inl TypeError
      | JBool b \<Rightarrow> Inr (status, R)
      | JObj cm \<Rightarrow> Inr (put_own status book (JObj (fmdrop c cm)), R))"
| "delete_flag R status book TTrue c = Inr (status, R)"
| "delete_flag R status book (TPrototype p) c =
     Inr (status, update_table R p (fmdrop c (table R p)))"
| "delete_flag R status book (TFunction f) c =
     (case fmlookup (own_properties R f) c of
        None \<Rightarrow> Inr (status, R)
      | Some (FData v w e cf) \<Rightarrow>
          if cf then Inr (status, update_function R f (fmdrop c (own_properties R f)))
          else Inl TypeError
      | Some FThrowTypeError \<Rightarrow>
          Inr (status, update_function R f (fmdrop c (own_properties R f))))"

text \<open>
  \<^verbatim>\<open>Object.keys(status[book]).length === 0\<close>: no own enumerable property. The method is
  read from the function \<^verbatim>\<open>Object\<close> at the call, and \<^verbatim>\<open>Object\<close> is among the objects that
  \<^verbatim>\<open>status[book]\<close> can be: once the tracker has deleted \<^verbatim>\<open>Object.keys\<close> or has written
  \<^verbatim>\<open>true\<close> over it, there is no function to call and the call raises.
\<close>

definition enumerable_p :: "pproperty \<Rightarrow> bool" where
  "enumerable_p q = (case q of PData v e \<Rightarrow> e | PProtoAccessor \<Rightarrow> False)"

definition enumerable_f :: "fproperty \<Rightarrow> bool" where
  "enumerable_f q = (case q of FData v w e cf \<Rightarrow> e | FThrowTypeError \<Rightarrow> False)"

definition Object_keys_callable :: "realm \<Rightarrow> bool" where
  "Object_keys_callable R =
     (case fmlookup (own_properties R ''Object'') ''keys'' of
        Some (FData FObject w e cf) \<Rightarrow> True
      | _ \<Rightarrow> False)"

fun Object_keys_empty :: "realm \<Rightarrow> target \<Rightarrow> js_error + bool" where
  "Object_keys_empty R TUndefined = Inl TypeError"
| "Object_keys_empty R (TOwn v) =
     (case v of
        JNull \<Rightarrow> Inl TypeError
      | JBool b \<Rightarrow> Inr True
      | JObj cm \<Rightarrow> Inr (fmdom cm = {||}))"
| "Object_keys_empty R TTrue = Inr True"
| "Object_keys_empty R (TPrototype p) = Inr (fmpred (\<lambda>k q. \<not> enumerable_p q) (table R p))"
| "Object_keys_empty R (TFunction f) = Inr (fmpred (\<lambda>k q. \<not> enumerable_f q) (own_properties R f))"

definition keys_empty :: "realm \<Rightarrow> target \<Rightarrow> js_error + bool" where
  "keys_empty R t = (if Object_keys_callable R then Object_keys_empty R t else Inl TypeError)"

text \<open>\<^verbatim>\<open>delete status[book]\<close>: an own property of \<^verbatim>\<open>status\<close>, if there is one.\<close>

fun delete_prop :: "jsvalue \<Rightarrow> string \<Rightarrow> js_error + jsvalue" where
  "delete_prop JNull k = Inl TypeError"
| "delete_prop (JBool b) k = Inr (JBool b)"
| "delete_prop (JObj m) k = Inr (JObj (fmdrop k m))"

subsection \<open>The four exported functions\<close>

text \<open>
  \<^verbatim>\<open>getReadingStatus\<close>: the \<^verbatim>\<open>try\<close> block returns \<^verbatim>\<open>{}\<close> for a falsy item (none, or the
  empty string) and the parsed value otherwise; the \<^verbatim>\<open>catch\<close> turns the SyntaxError of
  \<^verbatim>\<open>JSON.parse\<close> into \<^verbatim>\<open>{}\<close>.
\<close>

definition getReadingStatus_try :: "stored \<Rightarrow> js_error + jsvalue" where
  "getReadingStatus_try st =
     (if st = Absent \<or> st = Empty then Inr (JObj fmempty) else JSON_parse st)"

definition getReadingStatus :: "stored \<Rightarrow> jsvalue" where
  "getReadingStatus st =
     (case getReadingStatus_try st of Inl e \<Rightarrow> JObj fmempty | Inr v \<Rightarrow> v)"

text \<open>
  \<^verbatim>\<open>if (!status[book]) { status[book] = {}; }\<close>, shared by the two writers. A falsy
  \<^verbatim>\<open>status[book]\<close> is \<^verbatim>\<open>undefined\<close> (the key is found nowhere) or an own \<^verbatim>\<open>null\<close> or
  \<^verbatim>\<open>false\<close> (whatever is inherited is truthy: a function, \<^verbatim>\<open>true\<close>, a prototype object),
  so the assignment creates or overwrites an own property of an object, and raises
  on a boolean.
\<close>

definition ensure_book :: "realm \<Rightarrow> jsvalue \<Rightarrow> string \<Rightarrow> js_error + jsvalue" where
  "ensure_book R status book =
     (case get_prop R status book of
        Inl e \<Rightarrow> Inl e
      | Inr t \<Rightarrow>
          if truthy_target t then Inr status
          else (case status of
                  JObj m \<Rightarrow> Inr (JObj (fmupd book (JObj fmempty) m))
                | _ \<Rightarrow> Inl TypeError))"

text \<open>
  The two writers take the stored item and the built-in objects and return both.
  The \<^verbatim>\<open>try\<close> block yields the text to store or the error it raised, and the built-in
  objects as they are at that moment.
\<close>

definition markChapterAsRead_try ::
  "string \<Rightarrow> string \<Rightarrow> stored \<times> realm \<Rightarrow> (js_error + stored) \<times> realm" where
  "markChapterAsRead_try book chapter s =
     (case s of (st, R) \<Rightarrow>
        (case ensure_book R (getReadingStatus st) book of
           Inl e \<Rightarrow> (Inl e, R)
         | Inr status1 \<Rightarrow>
             (case get_prop R status1 book of
                Inl e \<Rightarrow> (Inl e, R)
              | Inr t \<Rightarrow>
                  (case set_flag R status1 book t chapter of
                     Inl e \<Rightarrow> (Inl e, R)
                   | Inr (status2, R2) \<Rightarrow> (Inr (JSON_stringify status2), R2)))))"

text \<open>The \<^verbatim>\<open>catch\<close> only logs: the stored item stays as it was.\<close>

definition markChapterAsRead :: "string \<Rightarrow> string \<Rightarrow> stored \<times> realm \<Rightarrow> stored \<times> realm" where
  "markChapterAsRead book chapter s =
     (case markChapterAsRead_try book chapter s of
        (Inl e, R') \<Rightarrow> (fst s, R')
      | (Inr st', R') \<Rightarrow> (st', R'))"

definition toggleChapterReadStatus_try ::
  "string \<Rightarrow> string \<Rightarrow> stored \<times> realm \<Rightarrow> (js_error + stored) \<times> realm" where
  "toggleChapterReadStatus_try book chapter s =
     (case s of (st, R) \<Rightarrow>
        (case ensure_book R (getReadingStatus st) book of
           Inl e \<Rightarrow> (Inl e, R)
         | Inr status1 \<Rightarrow>
             (case get_prop R status1 book of
                Inl e \<Rightarrow> (Inl e, R)
              | Inr t \<Rightarrow>
                  (case get_flag R t chapter of
                     Inl e \<Rightarrow> (Inl e, R)
                   | Inr flag \<Rightarrow>
                       if flag
                       then
                         (case delete_flag R status1 book t chapter of
                            Inl e \<Rightarrow> (Inl e, R)
                          | Inr (status2, R2) \<Rightarrow>
                              (case get_prop R2 status2 book of
                                 Inl e \<Rightarrow> (Inl e, R2)
                               | Inr t2 \<Rightarrow>
                                   (case keys_empty R2 t2 of
                                      Inl e \<Rightarrow> (Inl e, R2)
                                    | Inr noKeys \<Rightarrow>
                                        if noKeys
                                        then (case delete_prop status2 book of
                                                Inl e \<Rightarrow> (Inl e, R2)
                                              | Inr status3 \<Rightarrow> (Inr (JSON_stringify status3), R2))
                                        else (Inr (JSON_stringify status2), R2))))
                       else
                         (case set_flag R status1 book t chapter of
                            Inl e \<Rightarrow> (Inl e, R)
                          | Inr (status2, R2) \<Rightarrow> (Inr (JSON_stringify status2), R2))))))"

definition toggleChapterReadStatus :: "string \<Rightarrow> string \<Rightarrow> stored \<times> realm \<Rightarrow> stored \<times> realm" where
  "toggleChapterReadStatus book chapter s =
     (case toggleChapterReadStatus_try book chapter s of
        (Inl e, R') \<Rightarrow> (fst s, R')
      | (Inr st', R') \<Rightarrow> (st', R'))"

text \<open>
  \<^verbatim>\<open>!!(status[book] && status[book][chapter])\<close>. The function has no \<^verbatim>\<open>try\<close>: a TypeError
  of a property read reaches the caller.
\<close>

definition isChapterRead :: "realm \<Rightarrow> jsvalue \<Rightarrow> string \<Rightarrow> string \<Rightarrow> js_error + bool" where
  "isChapterRead R status book chapter =
     (case get_prop R status book of
        Inl e \<Rightarrow> Inl e
      | Inr t \<Rightarrow> if \<not> truthy_target t then Inr False else get_flag R t chapter)"

text \<open>
  \<^verbatim>\<open>isChapterRead(getReadingStatus(), book, chapter)\<close>, as the tracker modal calls it.
\<close>

definition isRead :: "stored \<times> realm \<Rightarrow> string \<Rightarrow> string \<Rightarrow> js_error + bool" where
  "isRead s book chapter = isChapterRead (snd s) (getReadingStatus (fst s)) book chapter"

subsection \<open>The built-in objects when the page is loaded\<close>

text \<open>
  The own string-keyed properties of \<^verbatim>\<open>Object.prototype\<close>, \<^verbatim>\<open>Boolean.prototype\<close> and
  \<^verbatim>\<open>Function.prototype\<close> and of the functions that the two prototype objects hold, as
  ECMAScript defines them (edition 2024, with Annex B). A built-in function has a
  read-only \<^verbatim>\<open>length\<close> and \<^verbatim>\<open>name\<close>; methods are writable, not enumerable and
  configurable; the \<^verbatim>\<open>prototype\<close> of a constructor is read-only and not configurable.
\<close>

definition builtin_function :: "nat \<Rightarrow> string \<Rightarrow> (string \<times> fproperty) list" where
  "builtin_function len nm =
     [(''length'', FData (FNumber len) False False True),
      (''name'', FData (FString nm) False False True)]"

definition builtin_method :: "string \<Rightarrow> string \<times> fproperty" where
  "builtin_method k = (k, FData FObject True False True)"

definition Object_static_methods :: "string list" where
  "Object_static_methods =
     [''assign'', ''create'', ''defineProperties'', ''defineProperty'', ''entries'', ''freeze'',
      ''fromEntries'', ''getOwnPropertyDescriptor'', ''getOwnPropertyDescriptors'',
      ''getOwnPropertyNames'', ''getOwnPropertySymbols'', ''getPrototypeOf'', ''groupBy'',
      ''hasOwn'', ''is'', ''isExtensible'', ''isFrozen'', ''isSealed'', ''keys'',
      ''preventExtensions'', ''seal'', ''setPrototypeOf'', ''values'']"

definition initial_Object_prototype :: "(string \<times> pproperty) list" where
  "initial_Object_prototype =
     [(''constructor'', PData (PFunction ''Object'') False),
      (''__defineGetter__'', PData (PFunction ''Object.prototype.__defineGetter__'') False),
      (''__defineSetter__'', PData (PFunction ''Object.prototype.__defineSetter__'') False),
      (''hasOwnProperty'', PData (PFunction ''Object.prototype.hasOwnProperty'') False),
      (''__lookupGetter__'', PData (PFunction ''Object.prototype.__lookupGetter__'') False),
      (''__lookupSetter__'', PData (PFunction ''Object.prototype.__lookupSetter__'') False),
      (''isPrototypeOf'', PData (PFunction ''Object.prototype.isPrototypeOf'') False),
      (''propertyIsEnumerable'', PData (PFunction ''Object.prototype.propertyIsEnumerable'') False),
      (''toString'', PData (PFunction ''Object.prototype.toString'') False),
      (''valueOf'', PData (PFunction ''Object.prototype.valueOf'') False),
      (''toLocaleString'', PData (PFunction ''Object.prototype.toLocaleString'') False),
      (''__proto__'', PProtoAccessor)]"

definition initial_Boolean_prototype :: "(string \<times> pproperty) list" where
  "initial_Boolean_prototype =
     [(''constructor'', PData (PFunction ''Boolean'') False),
      (''toString'', PData (PFunction ''Boolean.prototype.toString'') False),
      (''valueOf'', PData (PFunction ''Boolean.prototype.valueOf'') False)]"

definition initial_Function_prototype :: "(string \<times> fproperty) list" where
  "initial_Function_prototype =
     [(''length'', FData (FNumber 0) False False True),
      (''name'', FData (FString []) False False True),
      (''arguments'', FThrowTypeError),
      (''caller'', FThrowTypeError),
      builtin_method ''constructor'',
      builtin_method ''apply'',
      builtin_method ''bind'',
      builtin_method ''call'',
      builtin_method ''toString'']"

definition initial_functions :: "(string \<times> (string, fproperty) fmap) list" where
  "initial_functions =
     [(''Object'', fmap_of_list (builtin_function 1 ''Object''
         @ [(''prototype'', FData FObject False False False)]
         @ map builtin_method Object_static_methods)),
      (''Boolean'', fmap_of_list (builtin_function 1 ''Boolean''
         @ [(''prototype'', FData FObject False False False)])),
      (''Object.prototype.__defineGetter__'', fmap_of_list (builtin_function 2 ''__defineGetter__'')),
      (''Object.prototype.__defineSetter__'', fmap_of_list (builtin_function 2 ''__defineSetter__'')),
      (''Object.prototype.hasOwnProperty'', fmap_of_list (builtin_function 1 ''hasOwnProperty'')),
      (''Object.prototype.__lookupGetter__'', fmap_of_list (builtin_function 1 ''__lookupGetter__'')),
      (''Object.prototype.__lookupSetter__'', fmap_of_list (builtin_function 1 ''__lookupSetter__'')),
      (''Object.prototype.isPrototypeOf'', fmap_of_list (builtin_function 1 ''isPrototypeOf'')),
      (''Object.prototype.propertyIsEnumerable'',
         fmap_of_list (builtin_function 1 ''propertyIsEnumerable'')),
      (''Object.prototype.toString'', fmap_of_list (builtin_function 0 ''toString'')),
      (''Object.prototype.valueOf'', fmap_of_list (builtin_function 0 ''valueOf'')),
      (''Object.prototype.toLocaleString'', fmap_of_list (builtin_function 0 ''toLocaleString'')),
      (''Boolean.prototype.toString'', fmap_of_list (builtin_function 0 ''toString'')),
      (''Boolean.prototype.valueOf'', fmap_of_list (builtin_function 0 ''valueOf''))]"

definition initial_realm :: realm where
  "initial_realm =
     \<lparr>Object_prototype = fmap_of_list initial_Object_prototype,
      Boolean_prototype = fmap_of_list initial_Boolean_prototype,
      Function_prototype = fmap_of_list initial_Function_prototype,
      function_objects = fmap_of_list initial_functions\<rparr>"

text \<open>
  A key that names no property of \<^verbatim>\<open>Object.prototype\<close> or \<^verbatim>\<open>Boolean.prototype\<close>. On the
  loaded page these are all keys but \<^verbatim>\<open>constructor\<close>, \<^verbatim>\<open>hasOwnProperty\<close>,
  \<^verbatim>\<open>isPrototypeOf\<close>, \<^verbatim>\<open>propertyIsEnumerable\<close>, \<^verbatim>\<open>toLocaleString\<close>, \<^verbatim>\<open>toString\<close>, \<^verbatim>\<open>valueOf\<close>,
  \<^verbatim>\<open>__proto__\<close>, \<^verbatim>\<open>__defineGetter__\<close>, \<^verbatim>\<open>__defineSetter__\<close>, \<^verbatim>\<open>__lookupGetter__\<close> and
  \<^verbatim>\<open>__lookupSetter__\<close>; the name of a book of the Bible and the number of a chapter are
  among them.
\<close>

definition plain :: "realm \<Rightarrow> string \<Rightarrow> bool" where
  "plain R k \<longleftrightarrow> fmlookup (Object_prototype R) k = None \<and> fmlookup (Boolean_prototype R) k = None"

subsection \<open>Shapes of stored values\<close>

text \<open>A value of the declared type: an object whose entries are objects of booleans.\<close>

definition is_flags :: "jsvalue \<Rightarrow> bool" where
  "is_flags v = (case v of JObj m \<Rightarrow> fmpred (\<lambda>k x. case x of JBool b \<Rightarrow> True | _ \<Rightarrow> False) m | _ \<Rightarrow> False)"

definition is_ReadingStatus :: "jsvalue \<Rightarrow> bool" where
  "is_ReadingStatus v = (case v of JObj m \<Rightarrow> fmpred (\<lambda>k x. is_flags x) m | _ \<Rightarrow> False)"

text \<open>No book is mapped to the empty object.\<close>

definition no_empty_books :: "jsvalue \<Rightarrow> bool" where
  "no_empty_books v = (case v of JObj m \<Rightarrow> fmpred (\<lambda>k x. x \<noteq> JObj fmempty) m | _ \<Rightarrow> True)"

subsection \<open>The writers on an object status, in closed form\<close>

text \<open>
  What \<^verbatim>\<open>toggleChapterReadStatus\<close> and \<^verbatim>\<open>markChapterAsRead\<close> store when the status read
  back is an object \<open>m\<close> and \<open>book\<close> names no inherited property (\<open>None\<close>: the \<^verbatim>\<open>try\<close>
  block raised and nothing is stored), and what \<^verbatim>\<open>isChapterRead\<close> answers on it. They
  are proved equal to the functions above and only serve the proofs.
\<close>

definition inner_of :: "jsvalue option \<Rightarrow> (string, jsvalue) fmap" where
  "inner_of x = (case x of Some (JObj cm) \<Rightarrow> cm | _ \<Rightarrow> fmempty)"

definition flag_obj :: "realm \<Rightarrow> (string, jsvalue) fmap \<Rightarrow> string \<Rightarrow> bool" where
  "flag_obj R cm c =
     (case fmlookup cm c of
        Some x \<Rightarrow> truthy (Some x)
      | None \<Rightarrow> fmlookup (Object_prototype R) c \<noteq> None)"

definition toggle_obj ::
  "realm \<Rightarrow> string \<Rightarrow> string \<Rightarrow> (string, jsvalue) fmap \<Rightarrow> (string, jsvalue) fmap option" where
  "toggle_obj R book chapter m =
     (if fmlookup m book = Some (JBool True)
      then (if find_property (boolean_chain R) chapter \<noteq> None then Some (fmdrop book m) else None)
      else
        let cm = inner_of (fmlookup m book) in
        if flag_obj R cm chapter
        then (if fmdrop chapter cm = fmempty then Some (fmdrop book m)
              else Some (fmupd book (JObj (fmdrop chapter cm)) m))
        else Some (fmupd book (JObj (fmupd chapter (JBool True) cm)) m))"

definition mark_obj ::
  "realm \<Rightarrow> string \<Rightarrow> string \<Rightarrow> (string, jsvalue) fmap \<Rightarrow> (string, jsvalue) fmap option" where
  "mark_obj R book chapter m =
     (if fmlookup m book = Some (JBool True)
      then (if find_property (boolean_chain R) chapter = Some PProtoAccessor then Some m else None)
      else
        let cm = inner_of (fmlookup m book) in
        if fmlookup cm chapter = None \<and> fmlookup (Object_prototype R) chapter = Some PProtoAccessor
        then Some (fmupd book (JObj cm) m)
        else Some (fmupd book (JObj (fmupd chapter (JBool True) cm)) m))"

definition read_obj :: "realm \<Rightarrow> (string, jsvalue) fmap \<Rightarrow> string \<Rightarrow> string \<Rightarrow> bool" where
  "read_obj R m b c =
     (case fmlookup m b of
        Some (JBool True) \<Rightarrow> find_property (boolean_chain R) c \<noteq> None
      | Some (JObj cm) \<Rightarrow> flag_obj R cm c
      | _ \<Rightarrow> False)"

section \<open>Passage cache (streamPassageText in src/services/geminiService.ts)\<close>

text \<open>
  The generator is run to its end, as both of its callers do (\<^verbatim>\<open>for await\<close> in
  \<^verbatim>\<open>handlePassageSelect\<close> and in \<^verbatim>\<open>consumeStream\<close>), one request after the other.
  \<^verbatim>\<open>sessionStorage\<close> is a finite map from keys to texts; \<^verbatim>\<open>setItem\<close> is taken to succeed.
  The text service is the environment: its answer to the \<open>n\<close>-th call of
  \<^verbatim>\<open>generateContentStream\<close> is either a rejection or a stream of chunks that ends normally
  or by raising. \<^verbatim>\<open>String.prototype.trim\<close> is a parameter.
\<close>

datatype response =
    Rejected
  | Chunks "string option list" bool

datatype gen_error = NoApiKey | ServiceError

record request =
  req_book :: string
  req_chapter :: string
  req_verseCount :: "nat option"

record world =
  sessionStorage :: "(string, string) fmap"
  env_API_KEY :: "string option"
  calls :: "request list"

record outcome =
  yielded :: "string list"
  thrown :: "gen_error option"

text \<open>A text is truthy when it is there and not empty.\<close>

definition truthy_text :: "string option \<Rightarrow> bool" where
  "truthy_text t = (case t of None \<Rightarrow> False | Some s \<Rightarrow> s \<noteq> [])"

definition cacheKey :: "string \<Rightarrow> string \<Rightarrow> string" where
  "cacheKey book chapter = ''passage:'' @ book @ '':'' @ chapter"

text \<open>\<^verbatim>\<open>process.env.API_KEY || sessionStorage.getItem('GEMINI_API_KEY')\<close>\<close>

definition apiKey :: "world \<Rightarrow> string option" where
  "apiKey w = (if truthy_text (env_API_KEY w) then env_API_KEY w
               else fmlookup (sessionStorage w) ''GEMINI_API_KEY'')"

text \<open>The chunks that pass \<^verbatim>\<open>if (chunkText)\<close>: they are yielded and appended to \<^verbatim>\<open>fullText\<close>.\<close>

definition chunk_texts :: "string option list \<Rightarrow> string list" where
  "chunk_texts cs = map the (filter truthy_text cs)"

definition streamPassageText ::
  "(string \<Rightarrow> string) \<Rightarrow> (nat \<Rightarrow> response) \<Rightarrow> string \<Rightarrow> string \<Rightarrow> nat option \<Rightarrow> world
     \<Rightarrow> outcome \<times> world" where
  "streamPassageText trim service book chapter verseCount w =
     (let cachedText = fmlookup (sessionStorage w) (cacheKey book chapter) in
      if truthy_text cachedText
      then (\<lparr>yielded = [the cachedText], thrown = None\<rparr>, w)
      else if \<not> truthy_text (apiKey w)
      then (\<lparr>yielded = [], thrown = Some NoApiKey\<rparr>, w)
      else
        let w1 = w\<lparr>calls := calls w @
                   [\<lparr>req_book = book, req_chapter = chapter, req_verseCount = verseCount\<rparr>]\<rparr>
        in case service (length (calls w)) of
             Rejected \<Rightarrow> (\<lparr>yielded = [], thrown = Some ServiceError\<rparr>, w1)
           | Chunks cs raises \<Rightarrow>
               let fullText = concat (chunk_texts cs) in
               if raises
               then (\<lparr>yielded = chunk_texts cs, thrown = Some ServiceError\<rparr>, w1)
               else (\<lparr>yielded = chunk_texts cs, thrown = None\<rparr>,
                     if fullText \<noteq> []
                     then w1\<lparr>sessionStorage :=
                            fmupd (cacheKey book chapter) (trim fullText) (sessionStorage w1)\<rparr>
                     else w1))"

text \<open>Two requests for the same passage, one after the other.\<close>

definition request_twice ::
  "(string \<Rightarrow> string) \<Rightarrow> (nat \<Rightarrow> response) \<Rightarrow> string \<Rightarrow> string \<Rightarrow> nat option \<Rightarrow> nat option
     \<Rightarrow> world \<Rightarrow> outcome \<times> outcome \<times> world" where
  "request_twice trim service book chapter vc1 vc2 w =
     (let (o1, w1) = streamPassageText trim service book chapter vc1 w;
          (o2, w2) = streamPassageText trim service book chapter vc2 w1
      in (o1, o2, w2))"

text \<open>
  An instance of \<^verbatim>\<open>trim\<close> for ASCII text (space, tab, line feed, vertical tab, form feed,
  carriage return), used where a concrete run is evaluated.
\<close>

definition is_space :: "char \<Rightarrow> bool" where
  "is_space c = (c \<in> {CHR '' '', CHR 0x09, CHR 0x0A, CHR 0x0B, CHR 0x0C, CHR 0x0D})"

definition trim_ascii :: "string \<Rightarrow> string" where
  "trim_ascii s = rev (dropWhile is_space (rev (dropWhile is_space s)))"

text \<open>A fresh browsing session with a credential, and three answers of the service.\<close>

definition fresh_session :: world where
  "fresh_session = \<lparr>sessionStorage = fmempty, env_API_KEY = Some ''key'', calls = []\<rparr>"

definition answers_nothing :: "nat \<Rightarrow> response" where
  "answers_nothing n = Chunks [] False"

definition answers_text :: "nat \<Rightarrow> response" where
  "answers_text n = Chunks [Some ''1. Hello'', None, Some [CHR 0x0A], Some ''2. World ''] False"

definition answers_broken :: "nat \<Rightarrow> response" where
  "answers_broken n = Chunks [Some ''1. He''] True"

text \<open>A session in which the passage is already cached.\<close>

definition cached_session :: world where
  "cached_session = \<lparr>sessionStorage = fmupd ''passage:Genesis:1'' ''1. Hello'' fmempty,
                       env_API_KEY = None, calls = []\<rparr>"

section \<open>Chapter playback sequencer (handlePlayChapter and cleanupChapterAudio in App.tsx)\<close>

text \<open>
  Times are seconds on the clock of the \<^verbatim>\<open>AudioContext\<close>, delays of \<^verbatim>\<open>setTimeout\<close> are
  milliseconds; both are rationals, so the arithmetic of the code (\<^verbatim>\<open>Math.max\<close>, \<^verbatim>\<open>+\<close>,
  \<^verbatim>\<open>/\<close>, \<^verbatim>\<open>*\<close>) is exact here and the rounding of doubles is not modelled.
  The list of parsed verses is the input of the sequencer.
\<close>

datatype ChapterAudioState = Idle | Loading | Playing | Error

record verse =
  vnumber :: string
  vtext :: string

text \<open>An \<^verbatim>\<open>AudioBufferSourceNode\<close> that was started: its verse, the \<^verbatim>\<open>when\<close> of
  \<^verbatim>\<open>source.start(when)\<close>, \<^verbatim>\<open>buffer.duration\<close> and \<^verbatim>\<open>playbackRate.value\<close>.\<close>

record source =
  verseNumber :: string
  startAt :: rat
  bufferDuration :: rat
  playbackRate :: rat

text \<open>The time at which a clip has played to its end.\<close>

definition clip_end :: "source \<Rightarrow> rat" where
  "clip_end s = startAt s + bufferDuration s / playbackRate s"

datatype timeout = HighlightTimeout string rat | FinalCleanupTimeout rat

text \<open>
  The state shared by the handlers. Controller objects \<^verbatim>\<open>{ isCancelled }\<close> live in a
  store indexed by reference: \<open>controllers a c\<close> is the flag of controller \<open>c\<close>, and
  \<^verbatim>\<open>playbackController.current\<close> is a reference or \<^verbatim>\<open>null\<close>. A session keeps the reference
  it created (the closure's \<^verbatim>\<open>controller\<close>). \<open>started\<close>, \<open>stopped\<close>, \<open>timeouts\<close> and
  \<open>console_errors\<close> log the effects in the order they happen.
\<close>

record app =
  controllers :: "nat \<Rightarrow> bool"
  playbackController :: "nat option"
  activeAudioSources :: "source list"
  chapterAudioState :: ChapterAudioState
  currentlyPlayingVerse :: "string option"
  started :: "source list"
  stopped :: "source list"
  timeouts :: "timeout list"
  console_errors :: "string list"

definition cleanupChapterAudio :: "app \<Rightarrow> app" where
  "cleanupChapterAudio a =
     a\<lparr>controllers := (case playbackController a of
                          None \<Rightarrow> controllers a
                        | Some c \<Rightarrow> (controllers a)(c := True)),
       playbackController := None,
       stopped := stopped a @ activeAudioSources a,
       activeAudioSources := [],
       chapterAudioState := Idle,
       currentlyPlayingVerse := None\<rparr>"

text \<open>
  What can happen while \<^verbatim>\<open>streamAndPlay\<close> is suspended at \<^verbatim>\<open>await audioPromises[i]\<close>:
  \<^verbatim>\<open>cleanupChapterAudio\<close> runs (stop button, passage selection, rate change, unmount),
  a source ends (\<^verbatim>\<open>onended\<close> deletes it from the set), or the highlight timeout of a
  verse of this session fires.
\<close>

datatype event = Cancel | Ended source | HighlightFires string

fun handle :: "nat \<Rightarrow> event \<Rightarrow> app \<Rightarrow> app" where
  "handle c Cancel a = cleanupChapterAudio a"
| "handle c (Ended s) a = a\<lparr>activeAudioSources := removeAll s (activeAudioSources a)\<rparr>"
| "handle c (HighlightFires vn) a =
     (if controllers a c then a else a\<lparr>currentlyPlayingVerse := Some vn\<rparr>)"

text \<open>
  The environment of one run: the result of \<^verbatim>\<open>fetchAndDecode(verses[j])\<close> (the duration
  of the decoded buffer, or \<open>None\<close> for \<^verbatim>\<open>null\<close>), what happens while iteration \<open>i\<close> is
  suspended, and the readings of \<^verbatim>\<open>audioContext.currentTime\<close>: at the start, in
  iteration \<open>i\<close> after the await, and after the loop.
\<close>

record env =
  fetched :: "nat \<Rightarrow> rat option"
  events :: "nat \<Rightarrow> event list"
  clock :: "nat \<Rightarrow> rat"
  clock_start :: rat
  clock_end :: rat

text \<open>
  \<^verbatim>\<open>fetchAndDecode\<close> (lines 232 to 243) for one verse: \<^verbatim>\<open>getVersePronunciation\<close> returns
  the audio or raises, \<^verbatim>\<open>decodeAudioData\<close> returns a buffer (of which the model keeps the
  duration) or raises; after each of the two awaits the controller may have been
  cancelled meanwhile. The \<^verbatim>\<open>catch\<close> turns every error into \<^verbatim>\<open>null\<close>. In an environment,
  \<open>fetched E j\<close> is the value of this function for verse \<open>j\<close>.
\<close>

record attempt =
  pronunciation :: "string option"
  cancelledAfterFetch :: bool
  decoded :: "rat option"
  cancelledAfterDecode :: bool

definition fetchAndDecode :: "attempt \<Rightarrow> rat option" where
  "fetchAndDecode t =
     (case pronunciation t of
        None \<Rightarrow> None
      | Some base64Audio \<Rightarrow>
          if cancelledAfterFetch t then None
          else (case decoded t of
                  None \<Rightarrow> None
                | Some d \<Rightarrow> if cancelledAfterDecode t then None else Some d))"

text \<open>The local variables of \<^verbatim>\<open>streamAndPlay\<close>; a promise is the index of its verse.\<close>

record locals =
  nextStartTime :: rat
  audioPromises :: "nat list"

definition prefetchCount :: nat where
  "prefetchCount = 5"

definition PLAYBACK_RATES :: "rat list" where
  "PLAYBACK_RATES = [1, 13 / 10, 16 / 10, 2]"

datatype 'a step = Break 'a | Continue 'a

text \<open>
  One pass through the body of the \<^verbatim>\<open>for\<close> loop (lines 252 to 285). An index beyond
  the end of \<^verbatim>\<open>audioPromises\<close> reads \<^verbatim>\<open>undefined\<close>, which is awaited to a falsy result.
\<close>

definition iteration ::
  "env \<Rightarrow> verse list \<Rightarrow> rat \<Rightarrow> nat \<Rightarrow> nat \<Rightarrow> locals \<times> app \<Rightarrow> (locals \<times> app) step" where
  "iteration E verses rate c i s =
     (case s of (l, a) \<Rightarrow>
        if controllers a c then Break (l, a)
        else
          let l1 = (if i + prefetchCount < length verses
                    then l\<lparr>audioPromises := audioPromises l @ [i + prefetchCount]\<rparr>
                    else l);
              a1 = fold (handle c) (events E i) a;
              audioResult =
                (if i < length (audioPromises l1)
                 then (case fetched E (audioPromises l1 ! i) of
                         None \<Rightarrow> None
                       | Some d \<Rightarrow> Some (d, vnumber (verses ! (audioPromises l1 ! i))))
                 else None)
          in if controllers a1 c then Break (l1, a1)
             else (case audioResult of
                     Some (d, vn) \<Rightarrow>
                       let t = max (nextStartTime l1) (clock E i);
                           delay = (t - clock E i) * 1000;
                           src = \<lparr>verseNumber = vn, startAt = t, bufferDuration = d,
                                  playbackRate = rate\<rparr>
                       in Continue
                            (l1\<lparr>nextStartTime := t + d / rate\<rparr>,
                             a1\<lparr>timeouts := timeouts a1 @ [HighlightTimeout vn (max 0 delay)],
                                activeAudioSources := activeAudioSources a1 @ [src],
                                started := started a1 @ [src]\<rparr>)
                   | None \<Rightarrow>
                       Continue
                         (l1, a1\<lparr>console_errors :=
                                   console_errors a1 @ [vnumber (verses ! i)]\<rparr>)))"

function loop ::
  "env \<Rightarrow> verse list \<Rightarrow> rat \<Rightarrow> nat \<Rightarrow> nat \<Rightarrow> locals \<times> app \<Rightarrow> locals \<times> app" where
  "loop E verses rate c i s =
     (if i < length verses
      then (case iteration E verses rate c i s of
              Break s' \<Rightarrow> s'
            | Continue s' \<Rightarrow> loop E verses rate c (Suc i) s')
      else s)"
  by pat_completeness auto
termination
  by (relation "measure (\<lambda>(E, verses, rate, c, i, s). length verses - i)") auto

text \<open>The state before the loop: the first prefetches are issued and the state is \<^verbatim>\<open>playing\<close>.\<close>

definition loop_entry :: "env \<Rightarrow> verse list \<Rightarrow> app \<Rightarrow> locals \<times> app" where
  "loop_entry E verses a =
     (\<lparr>nextStartTime = clock_start E,
       audioPromises = [0..<min prefetchCount (length verses)]\<rparr>,
      a\<lparr>chapterAudioState := Playing\<rparr>)"

definition streamAndPlay :: "env \<Rightarrow> verse list \<Rightarrow> rat \<Rightarrow> nat \<Rightarrow> app \<Rightarrow> locals \<times> app" where
  "streamAndPlay E verses rate c a =
     (case loop E verses rate c 0 (loop_entry E verses a) of
        (l, a') \<Rightarrow>
          if \<not> controllers a' c
          then (l, a'\<lparr>timeouts := timeouts a' @
                   [FinalCleanupTimeout (max 0 ((nextStartTime l - clock_end E) * 1000) + 500)]\<rparr>)
          else (l, a'))"

text \<open>The callback of the final timeout (lines 291 to 293): it reads the live controller.\<close>

definition finalCleanupFires :: "app \<Rightarrow> app" where
  "finalCleanupFires a =
     (if \<not> (case playbackController a of None \<Rightarrow> False | Some c \<Rightarrow> controllers a c)
      then cleanupChapterAudio a else a)"

text \<open>
  \<^verbatim>\<open>handlePlayChapter\<close> (lines 200 to 218 and 297): a press while a session is live only
  cleans up; otherwise, unless the state is \<^verbatim>\<open>loading\<close> or there is no passage, the state
  becomes \<^verbatim>\<open>loading\<close>, a new controller object, the fresh reference \<open>c\<close>, becomes the live
  one, and \<^verbatim>\<open>streamAndPlay\<close> runs on the verses parsed from the passage (lines 225 to
  228). The \<^verbatim>\<open>AudioContext\<close> is taken to exist and to be running.
\<close>

definition handlePlayChapter :: "env \<Rightarrow> string \<Rightarrow> verse list \<Rightarrow> rat \<Rightarrow> nat \<Rightarrow> app \<Rightarrow> app" where
  "handlePlayChapter E passage verses rate c a =
     (if (case playbackController a of None \<Rightarrow> False | Some c' \<Rightarrow> \<not> controllers a c')
      then cleanupChapterAudio a
      else if chapterAudioState a = Loading \<or> passage = []
      then a
      else snd (streamAndPlay E verses rate c
                  (a\<lparr>chapterAudioState := Loading,
                     controllers := (controllers a)(c := False),
                     playbackController := Some c\<rparr>)))"

text \<open>
  The state at the top of iteration \<open>k\<close> of a run, if the run gets there: \<open>None\<close> when
  the loop has left through a \<^verbatim>\<open>break\<close> or has run out of verses before.
\<close>

primrec reached ::
  "env \<Rightarrow> verse list \<Rightarrow> rat \<Rightarrow> nat \<Rightarrow> app \<Rightarrow> nat \<Rightarrow> (locals \<times> app) option" where
  "reached E verses rate c a 0 = Some (loop_entry E verses a)"
| "reached E verses rate c a (Suc k) =
     (case reached E verses rate c a k of
        None \<Rightarrow> None
      | Some s \<Rightarrow>
          if k < length verses
          then (case iteration E verses rate c k s of Break s' \<Rightarrow> None | Continue s' \<Rightarrow> Some s')
          else None)"

subsection \<open>The schedule in the words of the specification\<close>

text \<open>
  The verses in order, each with the result of its fetch and the clock reading of its
  iteration: a failed verse is skipped; a successful one starts at
  \<open>max nextStartTime currentTime\<close>, and \<open>nextStartTime\<close> moves on by
  \<open>clipDuration / playbackRate\<close>.
\<close>

fun planned :: "rat \<Rightarrow> rat \<Rightarrow> (string \<times> rat option \<times> rat) list \<Rightarrow> source list" where
  "planned rate next [] = []"
| "planned rate next ((vn, None, now) # xs) = planned rate next xs"
| "planned rate next ((vn, Some d, now) # xs) =
     \<lparr>verseNumber = vn, startAt = max next now, bufferDuration = d, playbackRate = rate\<rparr>
       # planned rate (max next now + d / rate) xs"

fun planned_next :: "rat \<Rightarrow> rat \<Rightarrow> (string \<times> rat option \<times> rat) list \<Rightarrow> rat" where
  "planned_next rate next [] = next"
| "planned_next rate next ((vn, None, now) # xs) = planned_next rate next xs"
| "planned_next rate next ((vn, Some d, now) # xs) = planned_next rate (max next now + d / rate) xs"

definition observed :: "env \<Rightarrow> verse list \<Rightarrow> nat \<Rightarrow> (string \<times> rat option \<times> rat) list" where
  "observed E verses i = map (\<lambda>j. (vnumber (verses ! j), fetched E j, clock E j)) [i..<length verses]"

subsection \<open>A two-verse chapter\<close>

text \<open>
  Verses \<^verbatim>\<open>1. Hello\<close> and \<^verbatim>\<open>2. World\<close>, clips of 1.0 s and 1.5 s that are there at once
  (the clock reads 0 throughout), nothing happening in between, on a fresh controller.
\<close>

definition two_verses :: "verse list" where
  "two_verses = [\<lparr>vnumber = ''1'', vtext = ''Hello''\<rparr>, \<lparr>vnumber = ''2'', vtext = ''World''\<rparr>]"

definition fetched_two :: "nat \<Rightarrow> rat option" where
  "fetched_two j = (if j = 0 then Some 1 else if j = 1 then Some (3 / 2) else None)"

definition no_events :: "nat \<Rightarrow> event list" where
  "no_events i = []"

definition clock_zero :: "nat \<Rightarrow> rat" where
  "clock_zero i = 0"

definition two_env :: env where
  "two_env = \<lparr>fetched = fetched_two, events = no_events, clock = clock_zero,
              clock_start = 0, clock_end = 0\<rparr>"

definition no_flags :: "nat \<Rightarrow> bool" where
  "no_flags c = False"

definition fresh_app :: app where
  "fresh_app = \<lparr>controllers = no_flags, playbackController = Some 0, activeAudioSources = [],
                chapterAudioState = Loading, currentlyPlayingVerse = None, started = [],
                stopped = [], timeouts = [], console_errors = []\<rparr>"

subsection \<open>Stop and play again\<close>

text \<open>
  A chapter of one verse whose clip lasts 10 s. The button is pressed at time 0: the
  loop schedules the clip and ends at once, and the final timeout of this session is
  set for 10.5 s. The button is pressed again while the clip plays, which stops the
  session, and a third time at 2 s, which starts a second session on a new controller.
\<close>

definition one_verse :: "verse list" where
  "one_verse = [\<lparr>vnumber = ''1'', vtext = ''Hello''\<rparr>]"

definition fetched_long :: "nat \<Rightarrow> rat option" where
  "fetched_long j = (if j = 0 then Some 10 else None)"

definition clock_two :: "nat \<Rightarrow> rat" where
  "clock_two i = 2"

definition first_env :: env where
  "first_env = \<lparr>fetched = fetched_long, events = no_events, clock = clock_zero,
                clock_start = 0, clock_end = 0\<rparr>"

definition second_env :: env where
  "second_env = \<lparr>fetched = fetched_long, events = no_events, clock = clock_two,
                 clock_start = 2, clock_end = 2\<rparr>"

definition idle_app :: app where
  "idle_app = \<lparr>controllers = no_flags, playbackController = None, activeAudioSources = [],
               chapterAudioState = Idle, currentlyPlayingVerse = None, started = [],
               stopped = [], timeouts = [], console_errors = []\<rparr>"

definition first_session :: app where
  "first_session = handlePlayChapter first_env ''1. Hello'' one_verse 1 0 idle_app"

definition first_session_stopped :: app where
  "first_session_stopped = handlePlayChapter first_env ''1. Hello'' one_verse 1 1 first_session"

definition second_session :: app where
  "second_session = handlePlayChapter second_env ''1. Hello'' one_verse 1 1 first_session_stopped"

subsection \<open>Auxiliary notions for the proofs\<close>

text \<open>
  The promises issued when iteration \<open>i\<close> begins, the state in which an iteration that
  is not cancelled leaves the loop body, positive clip durations, and the state
  \<^verbatim>\<open>cleanupChapterAudio\<close> leaves behind; then two more environments for the two-verse
  chapter: one in which the session is cancelled while the second verse is awaited, and
  one in which the fetch of the first verse fails.
\<close>

definition window :: "verse list \<Rightarrow> nat \<Rightarrow> nat list" where
  "window verses i = [0..<min (length verses) (i + prefetchCount)]"

definition after_await :: "env \<Rightarrow> verse list \<Rightarrow> rat \<Rightarrow> nat \<Rightarrow> nat \<Rightarrow> locals \<times> app \<Rightarrow> locals \<times> app" where
  "after_await E verses rate c i s =
     (case s of (l, a) \<Rightarrow>
      (case fetched E i of
        None \<Rightarrow> (l\<lparr>audioPromises := window verses (Suc i)\<rparr>,
                 (fold (handle c) (events E i) a)\<lparr>console_errors :=
                     console_errors a @ [vnumber (verses ! i)]\<rparr>)
      | Some d \<Rightarrow>
          (l\<lparr>audioPromises := window verses (Suc i),
             nextStartTime := max (nextStartTime l) (clock E i) + d / rate\<rparr>,
           (fold (handle c) (events E i) a)
             \<lparr>timeouts := timeouts a @
                 [HighlightTimeout (vnumber (verses ! i))
                    (max 0 ((max (nextStartTime l) (clock E i) - clock E i) * 1000))],
              activeAudioSources := activeAudioSources (fold (handle c) (events E i) a) @
                 [\<lparr>verseNumber = vnumber (verses ! i), startAt = max (nextStartTime l) (clock E i),
                   bufferDuration = d, playbackRate = rate\<rparr>],
              started := started a @
                 [\<lparr>verseNumber = vnumber (verses ! i), startAt = max (nextStartTime l) (clock E i),
                   bufferDuration = d, playbackRate = rate\<rparr>]\<rparr>)))"

definition durations_positive :: "(string \<times> rat option \<times> rat) list \<Rightarrow> bool" where
  "durations_positive xs = (\<forall>(vn, r, now) \<in> set xs. \<forall>d. r = Some d \<longrightarrow> 0 < d)"

definition torn_down :: "nat \<Rightarrow> app \<Rightarrow> bool" where
  "torn_down c a \<longleftrightarrow> controllers a c \<and> activeAudioSources a = [] \<and> chapterAudioState a = Idle
     \<and> currentlyPlayingVerse a = None \<and> playbackController a = None"

definition cancel_second :: "nat \<Rightarrow> event list" where
  "cancel_second i = (if i = 1 then [Cancel] else [])"

definition cancel_env :: env where
  "cancel_env = \<lparr>fetched = fetched_two, events = cancel_second, clock = clock_zero,
                 clock_start = 0, clock_end = 0\<rparr>"

definition fetched_second_only :: "nat \<Rightarrow> rat option" where
  "fetched_second_only j = (if j = 1 then Some (3 / 2) else None)"

definition attempt_without_audio :: attempt where
  "attempt_without_audio = \<lparr>pronunciation = None, cancelledAfterFetch = False,
                             decoded = None, cancelledAfterDecode = False\<rparr>"

definition failing_env :: env where
  "failing_env = \<lparr>fetched = fetched_second_only, events = no_events, clock = clock_zero,
                  clock_start = 0, clock_end = 0\<rparr>"

section \<open>Highlight loop of single-verse playback (handlePlayVerse in src/components/BibleText.tsx)\<close>

text \<open>
  An alignment segment as the code reads it (fields \<^verbatim>\<open>startTime\<close> and \<^verbatim>\<open>endTime\<close>, in
  milliseconds).
\<close>

record VerseAnalysisItem =
  koreanWord :: string
  originalWord :: string
  startTime :: rat
  endTime :: rat

text \<open>\<^verbatim>\<open>Array.prototype.findIndex\<close>: the index of the first element that satisfies the
  predicate, \<open>-1\<close> if there is none.\<close>

fun findIndex :: "('a \<Rightarrow> bool) \<Rightarrow> 'a list \<Rightarrow> int" where
  "findIndex P [] = - 1"
| "findIndex P (x # xs) =
     (if P x then 0 else if findIndex P xs < 0 then - 1 else findIndex P xs + 1)"

text \<open>\<^verbatim>\<open>elapsedTimeMs >= item.startTime && elapsedTimeMs < item.endTime\<close>\<close>

definition covers :: "rat \<Rightarrow> VerseAnalysisItem \<Rightarrow> bool" where
  "covers elapsedTimeMs item \<longleftrightarrow> elapsedTimeMs \<ge> startTime item \<and> elapsedTimeMs < endTime item"

text \<open>
  What the callback finds when an animation frame runs it: the handle in
  \<^verbatim>\<open>audioSourceRef.current\<close> (set and cleared by other handlers) and the reading of
  \<^verbatim>\<open>audioContext.currentTime\<close>. What it writes: the highlight index and the pending
  frame request.
\<close>

record frame =
  liveSource :: "nat option"
  currentTime :: rat

record highlighter =
  highlightedIndex :: int
  animationFrameRef :: "nat option"
  framesRequested :: nat

definition requestAnimationFrame :: "highlighter \<Rightarrow> highlighter" where
  "requestAnimationFrame h =
     h\<lparr>framesRequested := Suc (framesRequested h),
       animationFrameRef := Some (Suc (framesRequested h))\<rparr>"

text \<open>The callback, for the source handle, start time and analysis its closure holds.\<close>

definition onPlaybackUpdate ::
  "nat \<Rightarrow> rat \<Rightarrow> VerseAnalysisItem list \<Rightarrow> frame \<Rightarrow> highlighter \<Rightarrow> highlighter" where
  "onPlaybackUpdate source playbackStartTime analysis f h =
     (if liveSource f \<noteq> Some source then h\<lparr>animationFrameRef := None\<rparr>
      else if currentTime f < playbackStartTime then requestAnimationFrame h
      else
        let elapsedTimeMs = (currentTime f - playbackStartTime) * 1000;
            currentIndex = findIndex (covers elapsedTimeMs) analysis
        in requestAnimationFrame (h\<lparr>highlightedIndex := currentIndex\<rparr>))"

text \<open>The callback runs once per frame for as long as a frame request is pending.\<close>

fun playback_loop ::
  "nat \<Rightarrow> rat \<Rightarrow> VerseAnalysisItem list \<Rightarrow> frame list \<Rightarrow> highlighter \<Rightarrow> highlighter" where
  "playback_loop source playbackStartTime analysis [] h = h"
| "playback_loop source playbackStartTime analysis (f # fs) h =
     (if animationFrameRef h = None then h
      else playback_loop source playbackStartTime analysis fs
             (onPlaybackUpdate source playbackStartTime analysis f h))"

text \<open>Two segments with a silent gap between them, a highlighter with its first frame
  requested, and two frames at 2.7 s: one with the handle of source 7 live, one without.\<close>

definition sample_analysis :: "VerseAnalysisItem list" where
  "sample_analysis =
     [\<lparr>koreanWord = ''a'', originalWord = ''b'', startTime = 0, endTime = 500\<rparr>,
      \<lparr>koreanWord = ''c'', originalWord = ''d'', startTime = 600, endTime = 1200\<rparr>]"

definition sample_highlighter :: highlighter where
  "sample_highlighter = \<lparr>highlightedIndex = - 1, animationFrameRef = Some 1, framesRequested = 1\<rparr>"

definition frame_playing :: frame where
  "frame_playing = \<lparr>liveSource = Some 7, currentTime = 27 / 10\<rparr>"

definition frame_superseded :: frame where
  "frame_superseded = \<lparr>liveSource = None, currentTime = 27 / 10\<rparr>"

section \<open>Properties of the reading tracker\<close>

lemma truthy_cases: "truthy x \<longleftrightarrow> (x = Some (JBool True) \<or> (\<exists>m. x = Some (JObj m)))"
  by (cases x rule: truthy.cases) auto

lemma fmdom_empty_iff: "fmdom m = {||} \<longleftrightarrow> m = fmempty"
  by (metis fmdom_empty fmrestrict_fset_dom fmrestrict_fset_null)

lemma fmdrop_empty_lookup:
  "fmdrop k m = fmempty \<Longrightarrow> k' \<noteq> k \<Longrightarrow> fmlookup m k' = None"
  by (metis fmlookup_drop fmempty_lookup)

lemma getReadingStatus_Encodes: "getReadingStatus (Encodes v) = v"
  by (simp add: getReadingStatus_def getReadingStatus_try_def JSON_parse_def)

subsection \<open>A book that names no inherited property\<close>

lemma find_property_single: "find_property [t] k = fmlookup t k"
  by (simp split: option.splits)

lemma plain_find:
  "plain R k \<Longrightarrow> find_property (boolean_chain R) k = None \<and> fmlookup (Object_prototype R) k = None"
  by (simp add: plain_def boolean_chain_def)

lemma get_prop_plain:
  "plain R book \<Longrightarrow>
   get_prop R (JObj m) book = Inr (case fmlookup m book of None \<Rightarrow> TUndefined | Some v \<Rightarrow> TOwn v)"
  by (simp add: get_prop_def own_property_def chain_def plain_def split: option.splits)

lemma get_prop_plain_bool:
  "plain R book \<Longrightarrow> get_prop R (JBool b) book = Inr TUndefined"
  by (simp add: get_prop_def own_property_def chain_def plain_def boolean_chain_def)

lemma get_flag_own_obj: "get_flag R (TOwn (JObj cm)) c = Inr (flag_obj R cm c)"
  by (simp add: flag_obj_def own_property_def chain_def find_property_single split: option.splits)

lemma get_flag_own_bool:
  "get_flag R (TOwn (JBool b)) c = Inr (find_property (boolean_chain R) c \<noteq> None)"
  by (simp add: own_property_def chain_def split: option.splits)

lemma isChapterRead_obj:
  "plain R b \<Longrightarrow> isChapterRead R (JObj m) b c = Inr (read_obj R m b c)"
  unfolding isChapterRead_def read_obj_def
  by (auto simp: get_prop_plain get_flag_own_obj get_flag_own_bool
      simp del: get_flag.simps split: option.splits jsvalue.splits bool.splits)

lemma isChapterRead_nonobj:
  "plain R b \<Longrightarrow> isChapterRead R (JBool x) b c = Inr False"
  unfolding isChapterRead_def by (simp add: get_prop_plain_bool)

lemma isChapterRead_lookup:
  "fmlookup m' b = fmlookup m b \<Longrightarrow> isChapterRead R (JObj m') b c = isChapterRead R (JObj m) b c"
proof -
  assume "fmlookup m' b = fmlookup m b"
  then have "get_prop R (JObj m') b = get_prop R (JObj m) b"
    by (simp add: get_prop_def own_property_def chain_def prototype_of_def
        split: option.splits pproperty.splits)
  then show ?thesis by (simp add: isChapterRead_def)
qed

subsection \<open>The closed forms agree with the code\<close>

lemma toggle_status_obj:
  assumes "plain R book" and "getReadingStatus st = JObj m" and "Object_keys_callable R"
  shows "toggleChapterReadStatus book chapter (st, R) =
     ((case toggle_obj R book chapter m of None \<Rightarrow> st | Some m' \<Rightarrow> Encodes (JObj m')), R)"
proof (cases "fmlookup m book")
  case None
  then show ?thesis using assms
    unfolding toggleChapterReadStatus_def toggleChapterReadStatus_try_def ensure_book_def
      toggle_obj_def JSON_stringify_def inner_of_def
    by (auto simp: get_prop_plain own_property_def chain_def put_own_def fmdom_empty_iff flag_obj_def keys_empty_def
        fmdrop_fmupd_same split: option.splits)
next
  case (Some v)
  show ?thesis
  proof (cases v)
    case JNull
    then show ?thesis using assms Some
      unfolding toggleChapterReadStatus_def toggleChapterReadStatus_try_def ensure_book_def
        toggle_obj_def JSON_stringify_def inner_of_def
      by (auto simp: get_prop_plain own_property_def chain_def put_own_def fmdom_empty_iff flag_obj_def keys_empty_def
        fmdrop_fmupd_same split: option.splits)
  next
    case (JBool b)
    then show ?thesis using assms Some
      unfolding toggleChapterReadStatus_def toggleChapterReadStatus_try_def ensure_book_def
        toggle_obj_def JSON_stringify_def inner_of_def
      by (cases b) (auto simp: get_prop_plain own_property_def chain_def put_own_def keys_empty_def
            fmdom_empty_iff flag_obj_def fmdrop_fmupd_same split: option.splits)
  next
    case (JObj cm)
    then show ?thesis using assms Some
      unfolding toggleChapterReadStatus_def toggleChapterReadStatus_try_def ensure_book_def
        toggle_obj_def JSON_stringify_def inner_of_def
      by (auto simp: get_prop_plain own_property_def chain_def put_own_def fmdom_empty_iff
            flag_obj_def fmdrop_fmupd_same keys_empty_def
          simp del: fmdom_drop split: option.splits)
  qed
qed

lemma toggle_status_nonobj:
  "plain R book \<Longrightarrow> getReadingStatus st = JNull \<or> getReadingStatus st = JBool b \<Longrightarrow>
   toggleChapterReadStatus book chapter (st, R) = (st, R)"
  unfolding toggleChapterReadStatus_def toggleChapterReadStatus_try_def ensure_book_def
  by (auto simp: get_prop_def own_property_def chain_def boolean_chain_def plain_def)

lemma mark_status_obj:
  assumes "plain R book" and "getReadingStatus st = JObj m"
  shows "markChapterAsRead book chapter (st, R) =
     ((case mark_obj R book chapter m of None \<Rightarrow> st | Some m' \<Rightarrow> Encodes (JObj m')), R)"
proof (cases "fmlookup m book")
  case None
  then show ?thesis using assms
    unfolding markChapterAsRead_def markChapterAsRead_try_def ensure_book_def
      mark_obj_def JSON_stringify_def inner_of_def
    by (simp add: get_prop_plain put_own_def)
next
  case (Some v)
  show ?thesis
  proof (cases v)
    case JNull
    then show ?thesis using assms Some
      unfolding markChapterAsRead_def markChapterAsRead_try_def ensure_book_def
        mark_obj_def JSON_stringify_def inner_of_def
      by (simp add: get_prop_plain put_own_def)
  next
    case (JBool b)
    then show ?thesis using assms Some
      unfolding markChapterAsRead_def markChapterAsRead_try_def ensure_book_def
        mark_obj_def JSON_stringify_def inner_of_def
      by (cases b) (auto simp: get_prop_plain put_own_def)
  next
    case (JObj cm)
    have "fmupd book (JObj cm) m = m" using Some JObj
      by (intro fmap_ext) auto
    then show ?thesis using assms Some JObj
      unfolding markChapterAsRead_def markChapterAsRead_try_def ensure_book_def
        mark_obj_def JSON_stringify_def inner_of_def
      by (auto simp: get_prop_plain put_own_def)
  qed
qed

lemma mark_status_nonobj:
  "plain R book \<Longrightarrow> getReadingStatus st = JNull \<or> getReadingStatus st = JBool b \<Longrightarrow>
   markChapterAsRead book chapter (st, R) = (st, R)"
  unfolding markChapterAsRead_def markChapterAsRead_try_def ensure_book_def
  by (auto simp: get_prop_def own_property_def chain_def boolean_chain_def plain_def)

subsection \<open>One toggle\<close>

lemma toggle_obj_other:
  "toggle_obj R book chapter m = Some m' \<Longrightarrow> b \<noteq> book \<Longrightarrow> fmlookup m' b = fmlookup m b"
  unfolding toggle_obj_def Let_def
  by (auto split: if_splits)

lemma toggle_obj_frame:
  "toggle_obj R book chapter m = Some m' \<Longrightarrow> c' \<noteq> chapter \<Longrightarrow> plain R c' \<Longrightarrow>
   read_obj R m' book c' = read_obj R m book c'"
  unfolding toggle_obj_def read_obj_def flag_obj_def inner_of_def Let_def
  by (auto simp: plain_find split: option.splits jsvalue.splits bool.splits if_splits
      dest: fmdrop_empty_lookup)

lemma toggle_obj_flip:
  "toggle_obj R book chapter m = Some m' \<Longrightarrow> plain R chapter \<Longrightarrow>
   read_obj R m' book chapter = (\<not> read_obj R m book chapter)"
  unfolding toggle_obj_def read_obj_def flag_obj_def inner_of_def Let_def
  by (auto simp: plain_find split: option.splits jsvalue.splits bool.splits if_splits)

lemma toggle_obj_again:
  "toggle_obj R book chapter m = Some m' \<Longrightarrow> \<exists>m''. toggle_obj R book chapter m' = Some m''"
  unfolding toggle_obj_def Let_def
  by (auto split: if_splits)

lemma toggle_obj_book_nonempty:
  "toggle_obj R book chapter m = Some m' \<Longrightarrow> fmlookup m' book \<noteq> Some (JObj fmempty)"
  unfolding toggle_obj_def Let_def
  by (auto split: if_splits)

lemma toggle_obj_no_empty:
  assumes "toggle_obj R book chapter m = Some m'"
    and "fmpred (\<lambda>k x. x \<noteq> JObj fmempty) m"
  shows "fmpred (\<lambda>k x. x \<noteq> JObj fmempty) m'"
  unfolding fmpred_iff
proof (intro allI impI)
  fix b y assume l: "fmlookup m' b = Some y"
  show "y \<noteq> JObj fmempty"
  proof (cases "b = book")
    case True
    then show ?thesis using toggle_obj_book_nonempty[OF assms(1)] l by auto
  next
    case False
    then have "fmlookup m b = Some y" using toggle_obj_other[OF assms(1) False] l by simp
    then show ?thesis using assms(2) by (auto simp: fmpred_iff)
  qed
qed

text \<open>The answer for a pair other than the toggled one, after one toggle.\<close>

lemma toggle_frame_obj:
  assumes p: "plain R book" "plain R c'"
    and ne: "(b', c') \<noteq> (book, chapter)"
    and t: "toggle_obj R book chapter m = Some m'"
  shows "isChapterRead R (JObj m') b' c' = isChapterRead R (JObj m) b' c'"
proof (cases "b' = book")
  case True
  then have "c' \<noteq> chapter" using ne by simp
  then show ?thesis using True p toggle_obj_frame[OF t]
    by (simp add: isChapterRead_obj)
next
  case False
  then show ?thesis using toggle_obj_other[OF t False] by (rule_tac isChapterRead_lookup)
qed

lemma toggle_frame_any:
  assumes p: "plain R book" "plain R c'"
    and ne: "(b', c') \<noteq> (book, chapter)"
    and k: "Object_keys_callable R"
  shows "isRead (toggleChapterReadStatus book chapter (st, R)) b' c' = isRead (st, R) b' c'
         \<and> snd (toggleChapterReadStatus book chapter (st, R)) = R"
proof (cases "getReadingStatus st")
  case (JObj m)
  show ?thesis
  proof (cases "toggle_obj R book chapter m")
    case None
    then show ?thesis using JObj p k by (simp add: toggle_status_obj isRead_def)
  next
    case (Some m')
    then show ?thesis using JObj p k toggle_frame_obj[OF p ne Some]
      by (simp add: toggle_status_obj isRead_def getReadingStatus_Encodes)
  qed
qed (use p in \<open>simp_all add: toggle_status_nonobj isRead_def\<close>)

subsection \<open>Two toggles\<close>

lemma toggle_twice_obj:
  assumes p: "plain R book" "plain R c'"
    and t1: "toggle_obj R book chapter m = Some m'"
    and t2: "toggle_obj R book chapter m' = Some m''"
  shows "isChapterRead R (JObj m'') b' c' = isChapterRead R (JObj m) b' c'"
proof (cases "(b', c') = (book, chapter)")
  case True
  then have "plain R chapter" using p by simp
  then show ?thesis using True p toggle_obj_flip[OF t1] toggle_obj_flip[OF t2]
    by (simp add: isChapterRead_obj)
next
  case False
  then show ?thesis using toggle_frame_obj[OF p False t1] toggle_frame_obj[OF p False t2] by simp
qed

lemma toggle_twice_read:
  assumes p: "plain R book" "plain R c'"
    and k: "Object_keys_callable R"
  shows "isRead (toggleChapterReadStatus book chapter (toggleChapterReadStatus book chapter (st, R))) b' c'
         = isRead (st, R) b' c'
       \<and> snd (toggleChapterReadStatus book chapter (toggleChapterReadStatus book chapter (st, R))) = R"
proof (cases "getReadingStatus st")
  case (JObj m)
  show ?thesis
  proof (cases "toggle_obj R book chapter m")
    case None
    then show ?thesis using JObj p k by (simp add: toggle_status_obj isRead_def)
  next
    case (Some m')
    then obtain m'' where m'': "toggle_obj R book chapter m' = Some m''"
      using toggle_obj_again by blast
    have 1: "toggleChapterReadStatus book chapter (st, R) = (Encodes (JObj m'), R)"
      using JObj Some p k by (simp add: toggle_status_obj)
    have 2: "toggleChapterReadStatus book chapter (Encodes (JObj m'), R) = (Encodes (JObj m''), R)"
      using m'' p k by (simp add: toggle_status_obj getReadingStatus_Encodes)
    show ?thesis using JObj toggle_twice_obj[OF p Some m'']
      by (simp add: 1 2 getReadingStatus_Encodes isRead_def)
  qed
qed (use p in \<open>simp_all add: toggle_status_nonobj isRead_def\<close>)

lemma toggle_twice_no_empty:
  assumes p: "plain R book"
    and ne: "no_empty_books (getReadingStatus st)"
    and k: "Object_keys_callable R"
  shows "no_empty_books (getReadingStatus (fst (toggleChapterReadStatus book chapter
           (toggleChapterReadStatus book chapter (st, R)))))"
proof (cases "getReadingStatus st")
  case (JObj m)
  show ?thesis
  proof (cases "toggle_obj R book chapter m")
    case None
    then show ?thesis using JObj assms by (simp add: toggle_status_obj)
  next
    case (Some m')
    then obtain m'' where m'': "toggle_obj R book chapter m' = Some m''"
      using toggle_obj_again by blast
    have 1: "toggleChapterReadStatus book chapter (st, R) = (Encodes (JObj m'), R)"
      using JObj Some p k by (simp add: toggle_status_obj)
    have 2: "toggleChapterReadStatus book chapter (Encodes (JObj m'), R) = (Encodes (JObj m''), R)"
      using m'' p k by (simp add: toggle_status_obj getReadingStatus_Encodes)
    have "fmpred (\<lambda>k x. x \<noteq> JObj fmempty) m''"
      using toggle_obj_no_empty[OF m'' toggle_obj_no_empty[OF Some]] ne JObj
      by (simp add: no_empty_books_def)
    then show ?thesis
      by (simp add: 1 2 getReadingStatus_Encodes no_empty_books_def)
  qed
qed (use p ne in \<open>simp_all add: toggle_status_nonobj\<close>)

subsection \<open>Marking a chapter\<close>

lemma mark_obj_idem:
  "mark_obj R book chapter m = Some m' \<Longrightarrow> mark_obj R book chapter m' = Some m'"
  unfolding mark_obj_def inner_of_def Let_def
  by (auto split: if_splits)

lemma typed_lookup:
  assumes "is_ReadingStatus (JObj m)" and "fmlookup m book = Some v"
  shows "\<exists>cm. v = JObj cm"
proof -
  have "is_flags v" using assms by (auto simp: is_ReadingStatus_def fmpred_iff)
  then show ?thesis by (cases v) (simp_all add: is_flags_def)
qed

lemma mark_obj_typed:
  assumes "is_ReadingStatus (JObj m)"
  shows "mark_obj R book chapter m \<noteq> None"
proof -
  have "fmlookup m book \<noteq> Some (JBool True)" using typed_lookup[OF assms] by fastforce
  then show ?thesis by (simp add: mark_obj_def Let_def)
qed

lemma mark_obj_read:
  assumes "mark_obj R book chapter m = Some m'" and "is_ReadingStatus (JObj m)"
  shows "read_obj R m' book chapter"
proof -
  have n: "fmlookup m book \<noteq> Some (JBool True)" using typed_lookup[OF assms(2)] by fastforce
  show ?thesis using assms(1) n
    unfolding mark_obj_def read_obj_def flag_obj_def Let_def
    by (auto split: if_splits)
qed

lemma mark_twice_plain:
  assumes p: "plain R book"
  shows "markChapterAsRead book chapter (markChapterAsRead book chapter (st, R))
         = markChapterAsRead book chapter (st, R)"
proof (cases "getReadingStatus st")
  case (JObj m)
  show ?thesis
  proof (cases "mark_obj R book chapter m")
    case None
    then show ?thesis using JObj p by (simp add: mark_status_obj)
  next
    case (Some m')
    then show ?thesis using JObj p mark_obj_idem[OF Some]
      by (simp add: mark_status_obj getReadingStatus_Encodes)
  qed
qed (use p in \<open>simp_all add: mark_status_nonobj\<close>)

lemma mark_then_read:
  assumes p: "plain R book" and "is_ReadingStatus (getReadingStatus st)"
  shows "isRead (markChapterAsRead book chapter (st, R)) book chapter = Inr True"
proof (cases "getReadingStatus st")
  case (JObj m)
  then obtain m' where m': "mark_obj R book chapter m = Some m'"
    using mark_obj_typed assms by fastforce
  then show ?thesis using JObj p mark_obj_read[OF m'] assms(2)
    by (simp add: mark_status_obj getReadingStatus_Encodes isChapterRead_obj isRead_def)
qed (use assms in \<open>simp_all add: is_ReadingStatus_def\<close>)

subsection \<open>A second write\<close>

lemma own_properties_update:
  "own_properties (update_function R f t) f = t"
  by (simp add: own_properties_def update_function_def)

lemma update_function_twice:
  "update_function (update_function R f t) f t = update_function R f t"
  by (simp add: update_function_def)

lemma table_update: "table (update_table R p t) p = t"
  by (cases p) (simp_all add: table_def update_table_def)

lemma update_table_twice: "update_table (update_table R p t) p t = update_table R p t"
  by (cases p) (simp_all add: update_table_def)

lemma parents_update: "parents (update_table R p t) p = parents R p"
  by (cases p) (simp_all add: parents_def update_table_def)

lemma set_flag_function_again:
  assumes "set_flag R status book (TFunction f) c = Inr (status2, R2)"
  shows "set_flag R2 status2 book (TFunction f) c = Inr (status2, R2)"
  using assms
  by (auto simp: own_properties_update update_function_twice
      split: option.splits fproperty.splits if_splits)

lemma set_flag_prototype_again:
  assumes "set_flag R status book (TPrototype p) c = Inr (status2, R2)"
  shows "set_flag R2 status2 book (TPrototype p) c = Inr (status2, R2)"
  using assms
  by (auto simp: table_update update_table_twice parents_update
      split: option.splits pproperty.splits if_splits)

lemma set_flag_true_again:
  assumes "set_flag R status book TTrue c = Inr (status2, R2)"
  shows "set_flag R2 status2 book TTrue c = Inr (status2, R2)"
  using assms by (auto split: if_splits)

lemma get_prop_function_stable:
  assumes "set_flag R status book (TFunction f) c = Inr (status2, R2)"
  shows "get_prop R2 status2 book = get_prop R status book"
proof -
  have "status2 = status" "Object_prototype R2 = Object_prototype R"
    "Boolean_prototype R2 = Boolean_prototype R"
    using assms
    by (auto simp: update_function_def split: option.splits fproperty.splits if_splits)
  then have a: "status2 = status" and b: "chain R2 status = chain R status"
    by (cases status; simp add: chain_def boolean_chain_def)+
  show ?thesis unfolding get_prop_def a b ..
qed

lemma get_prop_true_stable:
  assumes "set_flag R status book TTrue c = Inr (status2, R2)"
  shows "get_prop R2 status2 book = get_prop R status book"
  using assms by (auto split: if_splits)

text \<open>A write through the getter of \<^verbatim>\<open>__proto__\<close> leaves the accessor where it is.\<close>

lemma get_prop_prototype_stable:
  assumes g: "get_prop R status book = Inr (TPrototype p)"
    and s: "set_flag R status book (TPrototype p) c = Inr (status2, R2)"
  shows "get_prop R2 status2 book = Inr (TPrototype p)"
proof (cases status)
  case JNull
  then show ?thesis using g by (simp add: get_prop_def)
next
  case (JBool b)
  then have p: "p = BooleanPrototype" and f: "find_property (boolean_chain R) book = Some PProtoAccessor"
    using g
    by (auto simp: get_prop_def own_property_def chain_def prototype_of_def
        split: option.splits pproperty.splits pvalue.splits)
  have st: "status2 = status" using s
    by (auto split: option.splits pproperty.splits if_splits)
  have "find_property (boolean_chain R2) book = Some PProtoAccessor"
    using s f unfolding p
    by (auto simp: boolean_chain_def table_def parents_def update_table_def
        split: option.splits pproperty.splits if_splits)
  then show ?thesis using JBool st
    by (simp add: get_prop_def own_property_def chain_def prototype_of_def p)
next
  case (JObj m)
  then have p: "p = ObjectPrototype" and o: "fmlookup m book = None"
    and f: "fmlookup (Object_prototype R) book = Some PProtoAccessor"
    using g
    by (auto simp: get_prop_def own_property_def chain_def prototype_of_def
        split: option.splits pproperty.splits pvalue.splits)
  have st: "status2 = status" using s
    by (auto split: option.splits pproperty.splits if_splits)
  have "fmlookup (Object_prototype R2) book = Some PProtoAccessor"
    using s f unfolding p
    by (auto simp: table_def parents_def update_table_def
        split: option.splits pproperty.splits if_splits)
  then show ?thesis using JObj st o
    by (simp add: get_prop_def own_property_def chain_def prototype_of_def p)
qed

lemma set_flag_own_again:
  assumes g: "get_prop R status book = Inr (TOwn v)"
    and t: "truthy_target (TOwn v)"
    and s: "set_flag R status book (TOwn v) c = Inr (status2, R2)"
  shows "\<exists>v'. get_prop R2 status2 book = Inr (TOwn v') \<and> truthy_target (TOwn v')
          \<and> set_flag R2 status2 book (TOwn v') c = Inr (status2, R2)"
proof -
  obtain m where m: "status = JObj m" "fmlookup m book = Some v"
    using g
    by (cases status)
       (auto simp: get_prop_def own_property_def
          split: option.splits pproperty.splits pvalue.splits)
  show ?thesis
  proof (cases v)
    case JNull
    then show ?thesis using s by simp
  next
    case (JBool b)
    then have "status2 = status" "R2 = R"
      using s by (auto split: if_splits)
    then show ?thesis using g s t by auto
  next
    case (JObj cm)
    show ?thesis
    proof (cases "fmlookup cm c = None \<and> fmlookup (Object_prototype R) c = Some PProtoAccessor")
      case True
      then have "status2 = status" "R2 = R" using s JObj by auto
      then show ?thesis using g s t by auto
    next
      case False
      then have 2: "status2 = JObj (fmupd book (JObj (fmupd c (JBool True) cm)) m)" "R2 = R"
        using s JObj m by (auto simp: put_own_def)
      have g2: "get_prop R2 status2 book = Inr (TOwn (JObj (fmupd c (JBool True) cm)))"
        unfolding 2 by (simp add: get_prop_def own_property_def)
      have s2: "set_flag R2 status2 book (TOwn (JObj (fmupd c (JBool True) cm))) c = Inr (status2, R2)"
        unfolding 2 by (simp add: put_own_def)
      show ?thesis using g2 s2 by auto
    qed
  qed
qed

text \<open>
  After a write that went through, the same write finds \<^verbatim>\<open>status[book]\<close> truthy and
  changes nothing.
\<close>

lemma set_flag_again:
  assumes g: "get_prop R status book = Inr t"
    and t: "truthy_target t"
    and s: "set_flag R status book t c = Inr (status2, R2)"
  shows "\<exists>t'. get_prop R2 status2 book = Inr t' \<and> truthy_target t'
          \<and> set_flag R2 status2 book t' c = Inr (status2, R2)"
proof (cases t)
  case TUndefined
  then show ?thesis using t by simp
next
  case (TOwn v)
  then obtain v' where "get_prop R2 status2 book = Inr (TOwn v')" "truthy_target (TOwn v')"
      "set_flag R2 status2 book (TOwn v') c = Inr (status2, R2)"
    using set_flag_own_again[of R status book v c status2 R2] g t s by auto
  then show ?thesis by blast
next
  case TTrue
  have "get_prop R2 status2 book = Inr TTrue"
    using get_prop_true_stable[of R status book c status2 R2] g s TTrue by simp
  moreover have "set_flag R2 status2 book TTrue c = Inr (status2, R2)"
    using set_flag_true_again[of R status book c status2 R2] s TTrue by simp
  ultimately show ?thesis by (intro exI[of _ TTrue]) simp
next
  case (TPrototype p)
  have "get_prop R2 status2 book = Inr (TPrototype p)"
    using get_prop_prototype_stable[of R status book p c status2 R2] g s TPrototype by simp
  moreover have "set_flag R2 status2 book (TPrototype p) c = Inr (status2, R2)"
    using set_flag_prototype_again[of R status book p c status2 R2] s TPrototype by simp
  ultimately show ?thesis by (intro exI[of _ "TPrototype p"]) simp
next
  case (TFunction f)
  have "get_prop R2 status2 book = Inr (TFunction f)"
    using get_prop_function_stable[of R status book f c status2 R2] g s TFunction by simp
  moreover have "set_flag R2 status2 book (TFunction f) c = Inr (status2, R2)"
    using set_flag_function_again[of R status book f c status2 R2] s TFunction by simp
  ultimately show ?thesis by (intro exI[of _ "TFunction f"]) simp
qed

lemma ensure_book_truthy:
  assumes "ensure_book R status book = Inr status1"
  shows "\<exists>t. get_prop R status1 book = Inr t \<and> truthy_target t"
proof -
  obtain t0 where t0: "get_prop R status book = Inr t0"
    using assms by (auto simp: ensure_book_def split: sum.splits)
  show ?thesis
  proof (cases "truthy_target t0")
    case True
    then show ?thesis using assms t0 by (auto simp: ensure_book_def)
  next
    case False
    then obtain m where "status = JObj m" "status1 = JObj (fmupd book (JObj fmempty) m)"
      using assms t0 by (auto simp: ensure_book_def split: jsvalue.splits)
    then show ?thesis by (simp add: get_prop_def own_property_def)
  qed
qed

lemma ensure_book_done:
  "get_prop R status book = Inr t \<Longrightarrow> truthy_target t \<Longrightarrow> ensure_book R status book = Inr status"
  by (simp add: ensure_book_def)

lemma mark_twice:
  "markChapterAsRead book chapter (markChapterAsRead book chapter (st, R))
   = markChapterAsRead book chapter (st, R)"
proof (cases "ensure_book R (getReadingStatus st) book")
  case (Inl e)
  then show ?thesis by (simp add: markChapterAsRead_def markChapterAsRead_try_def)
next
  case (Inr status1)
  then obtain t where t: "get_prop R status1 book = Inr t" "truthy_target t"
    using ensure_book_truthy by blast
  show ?thesis
  proof (cases "set_flag R status1 book t chapter")
    case (Inl e)
    then show ?thesis using Inr t by (simp add: markChapterAsRead_def markChapterAsRead_try_def)
  next
    case r: (Inr r)
    obtain status2 R2 where r2: "r = (status2, R2)" by (cases r)
    have 1: "markChapterAsRead book chapter (st, R) = (Encodes status2, R2)"
      using Inr t r r2
      by (simp add: markChapterAsRead_def markChapterAsRead_try_def JSON_stringify_def)
    obtain t' where t': "get_prop R2 status2 book = Inr t'" "truthy_target t'"
      "set_flag R2 status2 book t' chapter = Inr (status2, R2)"
      using set_flag_again[OF t] r r2 by blast
    have "markChapterAsRead book chapter (Encodes status2, R2) = (Encodes status2, R2)"
      using t' ensure_book_done[OF t'(1,2)]
      by (simp add: markChapterAsRead_def markChapterAsRead_try_def JSON_stringify_def
          getReadingStatus_Encodes)
    then show ?thesis using 1 by simp
  qed
qed

subsection \<open>The loaded page\<close>

lemmas realm_defs = initial_realm_def initial_Object_prototype_def initial_Boolean_prototype_def
  initial_Function_prototype_def initial_functions_def builtin_function_def builtin_method_def
  Object_static_methods_def

lemma plain_Genesis: "plain initial_realm ''Genesis''"
  by (simp add: plain_def realm_defs fmlookup_of_list)

lemma plain_1: "plain initial_realm ''1''"
  by (simp add: plain_def realm_defs fmlookup_of_list)

lemma plain_2: "plain initial_realm ''2''"
  by (simp add: plain_def realm_defs fmlookup_of_list)

lemma Object_keys_initial: "Object_keys_callable initial_realm"
  by code_simp

text \<open>
  Claim C7, as stated: for every book, chapter and starting status, two toggles of the
  same chapter give the answers of \<^verbatim>\<open>isChapterRead\<close> back, and afterwards no book is
  mapped to the empty object. Three runs on the loaded page show where this fails.
  On the status \<^verbatim>\<open>{"Exodus": {}}\<close>, of the declared type, two toggles of (Genesis, 1)
  leave the empty entry of Exodus in place: a toggle prunes only the book it touches.
  With nothing stored, \<^verbatim>\<open>status['constructor']\<close> is the function \<^verbatim>\<open>Object\<close>:
  (constructor, name) reads true, the first toggle deletes \<^verbatim>\<open>Object.name\<close>, the second
  one raises on the read-only \<^verbatim>\<open>name\<close> inherited from \<^verbatim>\<open>Function.prototype\<close>, and the
  answer stays false.
  On the status \<^verbatim>\<open>{"Genesis": {"1": false}}\<close>, of the declared type and without an
  empty entry, (Genesis, toString) reads true through the inherited \<^verbatim>\<open>toString\<close>; the
  two toggles of (Genesis, 1) set the flag and then delete it and prune the entry of
  Genesis, and (Genesis, toString) reads false.
\<close>

theorem toggle_twice_not_a_roundtrip:
  "is_ReadingStatus (JObj (fmupd ''Exodus'' (JObj fmempty) fmempty))
   \<and> \<not> no_empty_books (getReadingStatus (fst (toggleChapterReadStatus ''Genesis'' ''1''
        (toggleChapterReadStatus ''Genesis'' ''1''
           (Encodes (JObj (fmupd ''Exodus'' (JObj fmempty) fmempty)), initial_realm)))))
   \<and> isRead (Absent, initial_realm) ''constructor'' ''name'' = Inr True
   \<and> isRead (toggleChapterReadStatus ''constructor'' ''name'' (Absent, initial_realm))
        ''constructor'' ''name'' = Inr False
   \<and> isRead (toggleChapterReadStatus ''constructor'' ''name''
        (toggleChapterReadStatus ''constructor'' ''name'' (Absent, initial_realm)))
        ''constructor'' ''name'' = Inr False
   \<and> is_ReadingStatus (JObj (fmupd ''Genesis'' (JObj (fmupd ''1'' (JBool False) fmempty)) fmempty))
   \<and> no_empty_books (JObj (fmupd ''Genesis'' (JObj (fmupd ''1'' (JBool False) fmempty)) fmempty))
   \<and> isRead (Encodes (JObj (fmupd ''Genesis'' (JObj (fmupd ''1'' (JBool False) fmempty)) fmempty)),
             initial_realm) ''Genesis'' ''toString'' = Inr True
   \<and> isRead (toggleChapterReadStatus ''Genesis'' ''1''
        (toggleChapterReadStatus ''Genesis'' ''1''
           (Encodes (JObj (fmupd ''Genesis'' (JObj (fmupd ''1'' (JBool False) fmempty)) fmempty)),
            initial_realm)))
        ''Genesis'' ''toString'' = Inr False"
  by code_simp

text \<open>
  Claim C7, amended. On the loaded page, for every stored item, every \<open>book\<close> that names
  no property of \<^verbatim>\<open>Object.prototype\<close> and every \<open>chapter\<close>:
  two toggles of \<open>(book, chapter)\<close> give back the answer of \<^verbatim>\<open>isChapterRead\<close> for every
  pair \<open>(b', c')\<close> whose chapter \<open>c'\<close> names no such property either (the toggled pair
  among them, when \<open>chapter\<close> is such a key), and leave the built-in objects as they were;
  and if the starting status has no empty book entry, then the status persisted after
  the second toggle has none.
\<close>

theorem toggle_twice_roundtrip:
  "(plain initial_realm book \<and> plain initial_realm c' \<longrightarrow>
      isRead (toggleChapterReadStatus book chapter
               (toggleChapterReadStatus book chapter (st, initial_realm))) b' c'
        = isRead (st, initial_realm) b' c'
      \<and> snd (toggleChapterReadStatus book chapter
               (toggleChapterReadStatus book chapter (st, initial_realm))) = initial_realm)
   \<and> (plain initial_realm book \<and> no_empty_books (getReadingStatus st) \<longrightarrow>
        no_empty_books (getReadingStatus (fst (toggleChapterReadStatus book chapter
          (toggleChapterReadStatus book chapter (st, initial_realm))))))"
  using toggle_twice_read[OF _ _ Object_keys_initial, of book "c'" "chapter" st "b'"]
    toggle_twice_no_empty[OF _ _ Object_keys_initial, of book st "chapter"]
  by blast

theorem toggle_twice_roundtrip_witness:
  "plain initial_realm ''Genesis'' \<and> plain initial_realm ''1''
   \<and> no_empty_books (getReadingStatus
        (Encodes (JObj (fmupd ''Genesis'' (JObj (fmupd ''1'' (JBool True) fmempty)) fmempty))))
   \<and> isRead (toggleChapterReadStatus ''Genesis'' ''1''
        (toggleChapterReadStatus ''Genesis'' ''1''
          (Encodes (JObj (fmupd ''Genesis'' (JObj (fmupd ''1'' (JBool True) fmempty)) fmempty)),
           initial_realm)))
        ''Genesis'' ''1'' = Inr True
   \<and> snd (toggleChapterReadStatus ''Genesis'' ''1''
        (toggleChapterReadStatus ''Genesis'' ''1''
          (Encodes (JObj (fmupd ''Genesis'' (JObj (fmupd ''1'' (JBool True) fmempty)) fmempty)),
           initial_realm))) = initial_realm
   \<and> no_empty_books (getReadingStatus (fst (toggleChapterReadStatus ''Genesis'' ''1''
        (toggleChapterReadStatus ''Genesis'' ''1''
          (Encodes (JObj (fmupd ''Genesis'' (JObj (fmupd ''1'' (JBool True) fmempty)) fmempty)),
           initial_realm)))))"
proof -
  let ?st = "Encodes (JObj (fmupd ''Genesis'' (JObj (fmupd ''1'' (JBool True) fmempty)) fmempty))"
  have h: "no_empty_books (getReadingStatus ?st)"
    by (simp add: getReadingStatus_Encodes no_empty_books_def fmpred_iff)
  have r: "isRead (?st, initial_realm) ''Genesis'' ''1'' = Inr True"
    by (simp add: isRead_def getReadingStatus_Encodes isChapterRead_obj[OF plain_Genesis]
        read_obj_def flag_obj_def)
  show ?thesis
    using h r plain_Genesis plain_1
      toggle_twice_roundtrip[of "''Genesis''" "''1''" "''1''" ?st "''Genesis''"]
    by simp
qed

text \<open>
  Claim C8, as stated: a toggle of \<open>(book, chapter)\<close> leaves the answer for every other
  pair as it was. On the loaded page, with \<^verbatim>\<open>{"Genesis": {"2": true}}\<close> stored,
  \<^verbatim>\<open>status['__proto__']\<close> is \<^verbatim>\<open>Object.prototype\<close>, so the toggle of (__proto__, 1) writes
  \<^verbatim>\<open>Object.prototype['1'] = true\<close>, which every object inherits: (Genesis, 1) goes from
  false to true while the stored text stays the same. And with nothing stored, the
  toggle of (Genesis, 1) creates the entry of Genesis, so that (Genesis, toString)
  goes from false to true through the inherited \<^verbatim>\<open>toString\<close>.
\<close>

theorem toggle_changes_another_pair:
  "isRead (Encodes (JObj (fmupd ''Genesis'' (JObj (fmupd ''2'' (JBool True) fmempty)) fmempty)),
           initial_realm) ''Genesis'' ''1'' = Inr False
   \<and> isRead (toggleChapterReadStatus ''__proto__'' ''1''
        (Encodes (JObj (fmupd ''Genesis'' (JObj (fmupd ''2'' (JBool True) fmempty)) fmempty)),
         initial_realm)) ''Genesis'' ''1'' = Inr True
   \<and> fst (toggleChapterReadStatus ''__proto__'' ''1''
        (Encodes (JObj (fmupd ''Genesis'' (JObj (fmupd ''2'' (JBool True) fmempty)) fmempty)),
         initial_realm))
       = Encodes (JObj (fmupd ''Genesis'' (JObj (fmupd ''2'' (JBool True) fmempty)) fmempty))
   \<and> isRead (Absent, initial_realm) ''Genesis'' ''toString'' = Inr False
   \<and> isRead (toggleChapterReadStatus ''Genesis'' ''1'' (Absent, initial_realm))
        ''Genesis'' ''toString'' = Inr True"
  by code_simp

text \<open>
  Claim C8, amended. On the loaded page, for every stored item, every \<open>book\<close> that names
  no property of \<^verbatim>\<open>Object.prototype\<close> and every \<open>chapter\<close>: a toggle of \<open>(book, chapter)\<close>
  leaves the answer of \<^verbatim>\<open>isChapterRead\<close> as it was for every other pair \<open>(b', c')\<close> whose
  chapter \<open>c'\<close> names no such property either, and leaves the built-in objects as they
  were.
\<close>

theorem toggle_frame:
  assumes "plain initial_realm book" and "plain initial_realm c'"
    and "(b', c') \<noteq> (book, chapter)"
  shows "isRead (toggleChapterReadStatus book chapter (st, initial_realm)) b' c'
           = isRead (st, initial_realm) b' c'
         \<and> snd (toggleChapterReadStatus book chapter (st, initial_realm)) = initial_realm"
  using assms Object_keys_initial by (rule toggle_frame_any)

theorem toggle_frame_witness:
  "plain initial_realm ''Genesis'' \<and> plain initial_realm ''1''
   \<and> (''Genesis'', ''1'') \<noteq> (''Genesis'', ''2'')
   \<and> isRead (toggleChapterReadStatus ''Genesis'' ''2''
        (Encodes (JObj (fmupd ''Genesis'' (JObj (fmupd ''1'' (JBool True) fmempty)) fmempty)),
         initial_realm)) ''Genesis'' ''1'' = Inr True
   \<and> snd (toggleChapterReadStatus ''Genesis'' ''2''
        (Encodes (JObj (fmupd ''Genesis'' (JObj (fmupd ''1'' (JBool True) fmempty)) fmempty)),
         initial_realm)) = initial_realm"
proof -
  let ?st = "Encodes (JObj (fmupd ''Genesis'' (JObj (fmupd ''1'' (JBool True) fmempty)) fmempty))"
  have h: "(''Genesis'', ''1'') \<noteq> (''Genesis'', ''2'')" by simp
  have r: "isRead (?st, initial_realm) ''Genesis'' ''1'' = Inr True"
    by (simp add: isRead_def getReadingStatus_Encodes isChapterRead_obj[OF plain_Genesis]
        read_obj_def flag_obj_def)
  show ?thesis
    using h r plain_Genesis plain_1 toggle_frame[OF plain_Genesis plain_1 h, of ?st] by simp
qed

subsection \<open>Reading the stored item\<close>

text \<open>
  Claim C9 makes every tracker read total over arbitrary stored strings. The stored
  text \<^verbatim>\<open>null\<close> is valid JSON: \<^verbatim>\<open>getReadingStatus\<close> returns \<^verbatim>\<open>null\<close> for it, unchecked, and
  \<^verbatim>\<open>isChapterRead\<close> raises TypeError on the property read. The two writers raise too,
  inside their \<^verbatim>\<open>try\<close>, and store nothing, so the item stays as it is.
\<close>

theorem isChapterRead_raises_on_stored_null:
  "getReadingStatus (Encodes JNull) = JNull
   \<and> isRead (Encodes JNull, initial_realm) ''Genesis'' ''1'' = Inl TypeError
   \<and> toggleChapterReadStatus ''Genesis'' ''1'' (Encodes JNull, initial_realm)
       = (Encodes JNull, initial_realm)
   \<and> markChapterAsRead ''Genesis'' ''1'' (Encodes JNull, initial_realm)
       = (Encodes JNull, initial_realm)"
  by (simp add: isRead_def isChapterRead_def getReadingStatus_def getReadingStatus_try_def
      JSON_parse_def get_prop_def toggleChapterReadStatus_def toggleChapterReadStatus_try_def
      markChapterAsRead_def markChapterAsRead_try_def ensure_book_def)

subsection \<open>Marking a chapter, on the loaded page\<close>

text \<open>
  Claim C10, as stated: after \<^verbatim>\<open>markChapterAsRead(book, chapter)\<close> the chapter reads
  true, for every book and chapter. On the loaded page with nothing stored,
  \<^verbatim>\<open>status['toString']\<close> is the function \<^verbatim>\<open>Object.prototype.toString\<close>, whose \<^verbatim>\<open>length\<close>
  is read-only and 0: the write raises, nothing is stored, and (toString, length)
  reads false. Likewise \<^verbatim>\<open>status['__proto__']['__proto__'] = true\<close> is ignored by the
  setter, and (__proto__, __proto__) reads false, for the prototype of
  \<^verbatim>\<open>Object.prototype\<close> is \<^verbatim>\<open>null\<close>.
\<close>

theorem mark_then_reads_false:
  "is_ReadingStatus (getReadingStatus Absent)
   \<and> isRead (markChapterAsRead ''toString'' ''length'' (Absent, initial_realm))
        ''toString'' ''length'' = Inr False
   \<and> fst (markChapterAsRead ''toString'' ''length'' (Absent, initial_realm)) = Absent
   \<and> isRead (markChapterAsRead ''__proto__'' ''__proto__'' (Absent, initial_realm))
        ''__proto__'' ''__proto__'' = Inr False"
  by code_simp

text \<open>
  Claim C10, amended. On the loaded page: after one
  \<^verbatim>\<open>markChapterAsRead(book, chapter)\<close> on a stored reading status (or on no item, or on
  an unparseable one), for a \<open>book\<close> that names no property of \<^verbatim>\<open>Object.prototype\<close> and
  every \<open>chapter\<close>, \<^verbatim>\<open>isChapterRead\<close> answers true for that chapter; and for every book,
  chapter and stored item, a second call leaves the stored item, and the built-in
  objects, exactly as the first call left them.
\<close>

theorem markChapterAsRead_idempotent:
  "(plain initial_realm book \<and> is_ReadingStatus (getReadingStatus st) \<longrightarrow>
      isRead (markChapterAsRead book chapter (st, initial_realm)) book chapter = Inr True)
   \<and> markChapterAsRead book chapter (markChapterAsRead book chapter (st, initial_realm))
       = markChapterAsRead book chapter (st, initial_realm)"
  using mark_twice[of book "chapter" st initial_realm]
    mark_then_read[of initial_realm book st "chapter"]
  by blast

theorem markChapterAsRead_idempotent_witness:
  "plain initial_realm ''Genesis''
   \<and> is_ReadingStatus (getReadingStatus Absent)
   \<and> isRead (markChapterAsRead ''Genesis'' ''1'' (Absent, initial_realm)) ''Genesis'' ''1'' = Inr True
   \<and> markChapterAsRead ''Genesis'' ''1'' (markChapterAsRead ''Genesis'' ''1'' (Absent, initial_realm))
       = (Encodes (JObj (fmupd ''Genesis'' (JObj (fmupd ''1'' (JBool True) fmempty)) fmempty)),
          initial_realm)"
proof -
  have h: "is_ReadingStatus (getReadingStatus Absent)"
    by (simp add: getReadingStatus_def getReadingStatus_try_def is_ReadingStatus_def)
  have g: "getReadingStatus Absent = JObj fmempty"
    by (simp add: getReadingStatus_def getReadingStatus_try_def)
  have m: "markChapterAsRead ''Genesis'' ''1'' (Absent, initial_realm)
           = (Encodes (JObj (fmupd ''Genesis'' (JObj (fmupd ''1'' (JBool True) fmempty)) fmempty)),
              initial_realm)"
    using plain_1 by (simp add: mark_status_obj[OF plain_Genesis g] mark_obj_def inner_of_def plain_def)
  show ?thesis
    using h m plain_Genesis markChapterAsRead_idempotent[of "''Genesis''" Absent "''1''"] by simp
qed

section \<open>Properties of the passage cache\<close>

lemmas cache_defs = streamPassageText_def request_twice_def truthy_text_def apiKey_def
  cacheKey_def chunk_texts_def fresh_session_def

lemma cache_hit:
  "truthy_text (fmlookup (sessionStorage w) (cacheKey book chapter)) \<Longrightarrow>
   streamPassageText trim service book chapter vc w =
     (\<lparr>yielded = [the (fmlookup (sessionStorage w) (cacheKey book chapter))], thrown = None\<rparr>, w)"
  by (simp add: streamPassageText_def)

lemma cache_miss_success:
  assumes "\<not> truthy_text (fmlookup (sessionStorage w) (cacheKey book chapter))"
    and "truthy_text (apiKey w)"
    and "service (length (calls w)) = Chunks cs False"
    and "concat (chunk_texts cs) \<noteq> []"
  shows "streamPassageText trim service book chapter vc w =
     (\<lparr>yielded = chunk_texts cs, thrown = None\<rparr>,
      w\<lparr>calls := calls w @ [\<lparr>req_book = book, req_chapter = chapter, req_verseCount = vc\<rparr>],
        sessionStorage := fmupd (cacheKey book chapter) (trim (concat (chunk_texts cs)))
                            (sessionStorage w)\<rparr>)"
  using assms by (simp add: streamPassageText_def Let_def)

lemma cache_twice_success:
  assumes "\<not> truthy_text (fmlookup (sessionStorage w) (cacheKey book chapter))"
    and "truthy_text (apiKey w)"
    and "service (length (calls w)) = Chunks cs False"
    and "concat (chunk_texts cs) \<noteq> []"
    and "trim (concat (chunk_texts cs)) \<noteq> []"
  shows "request_twice trim service book chapter vc1 vc2 w =
     (\<lparr>yielded = chunk_texts cs, thrown = None\<rparr>,
      \<lparr>yielded = [trim (concat (chunk_texts cs))], thrown = None\<rparr>,
      w\<lparr>calls := calls w @ [\<lparr>req_book = book, req_chapter = chapter, req_verseCount = vc1\<rparr>],
        sessionStorage := fmupd (cacheKey book chapter) (trim (concat (chunk_texts cs)))
                            (sessionStorage w)\<rparr>)"
proof -
  have 1: "streamPassageText trim service book chapter vc1 w =
     (\<lparr>yielded = chunk_texts cs, thrown = None\<rparr>,
      w\<lparr>calls := calls w @ [\<lparr>req_book = book, req_chapter = chapter, req_verseCount = vc1\<rparr>],
        sessionStorage := fmupd (cacheKey book chapter) (trim (concat (chunk_texts cs)))
                            (sessionStorage w)\<rparr>)"
    using assms(1-4) by (rule cache_miss_success)
  show ?thesis
    unfolding request_twice_def 1 using assms(5) by (simp add: cache_hit truthy_text_def)
qed

lemma cache_failure_stores_nothing:
  "thrown (fst (streamPassageText trim service book chapter vc w)) \<noteq> None \<Longrightarrow>
   sessionStorage (snd (streamPassageText trim service book chapter vc w)) = sessionStorage w"
  by (auto simp: streamPassageText_def Let_def split: response.splits if_splits)

lemma cache_miss_calls:
  "\<not> truthy_text (fmlookup (sessionStorage w) (cacheKey book chapter)) \<Longrightarrow>
   truthy_text (apiKey w) \<Longrightarrow>
   length (calls (snd (streamPassageText trim service book chapter vc w))) = length (calls w) + 1
   \<and> env_API_KEY (snd (streamPassageText trim service book chapter vc w)) = env_API_KEY w"
  by (auto simp: streamPassageText_def Let_def split: response.splits if_splits)

lemma cache_twice_failure:
  assumes "\<not> truthy_text (fmlookup (sessionStorage w) (cacheKey book chapter))"
    and "truthy_text (apiKey w)"
    and "thrown (fst (request_twice trim service book chapter vc1 vc2 w)) \<noteq> None"
  shows "length (calls (snd (snd (request_twice trim service book chapter vc1 vc2 w))))
         = length (calls w) + 2"
proof -
  let ?r1 = "streamPassageText trim service book chapter vc1 w"
  have t: "thrown (fst ?r1) \<noteq> None" using assms(3)
    by (simp add: request_twice_def split_def Let_def)
  have s: "sessionStorage (snd ?r1) = sessionStorage w"
    using cache_failure_stores_nothing[OF t] .
  have c: "length (calls (snd ?r1)) = length (calls w) + 1" "env_API_KEY (snd ?r1) = env_API_KEY w"
    using cache_miss_calls[OF assms(1,2)] by auto
  have m: "\<not> truthy_text (fmlookup (sessionStorage (snd ?r1)) (cacheKey book chapter))"
    using assms(1) s by simp
  have "apiKey (snd ?r1) = apiKey w" using s c(2) by (simp add: apiKey_def)
  then have k: "truthy_text (apiKey (snd ?r1))" using assms(2) by simp
  show ?thesis using cache_miss_calls[OF m k, of trim service vc2] c(1)
    by (simp add: request_twice_def split_def Let_def)
qed

lemma cache_miss_empty:
  assumes "\<not> truthy_text (fmlookup (sessionStorage w) (cacheKey book chapter))"
    and "truthy_text (apiKey w)"
    and "service (length (calls w)) = Chunks cs False"
    and "concat (chunk_texts cs) = []"
  shows "streamPassageText trim service book chapter vc w =
     (\<lparr>yielded = chunk_texts cs, thrown = None\<rparr>,
      w\<lparr>calls := calls w @ [\<lparr>req_book = book, req_chapter = chapter, req_verseCount = vc\<rparr>]\<rparr>)"
  using assms by (simp add: streamPassageText_def Let_def)

lemma cache_twice_empty:
  assumes "\<not> truthy_text (fmlookup (sessionStorage w) (cacheKey book chapter))"
    and "truthy_text (apiKey w)"
    and "service (length (calls w)) = Chunks cs False"
    and "concat (chunk_texts cs) = []"
  shows "length (calls (snd (snd (request_twice trim service book chapter vc1 vc2 w))))
         = length (calls w) + 2"
proof -
  let ?w1 = "w\<lparr>calls := calls w @ [\<lparr>req_book = book, req_chapter = chapter, req_verseCount = vc1\<rparr>]\<rparr>"
  have 1: "streamPassageText trim service book chapter vc1 w =
     (\<lparr>yielded = chunk_texts cs, thrown = None\<rparr>, ?w1)"
    using assms by (rule cache_miss_empty)
  have m: "\<not> truthy_text (fmlookup (sessionStorage ?w1) (cacheKey book chapter))"
    using assms(1) by simp
  have "apiKey ?w1 = apiKey w" by (simp add: apiKey_def)
  then have k: "truthy_text (apiKey ?w1)" using assms(2) by simp
  show ?thesis using cache_miss_calls[OF m k, of trim service vc2]
    unfolding request_twice_def 1 by (simp add: split_def Let_def)
qed

text \<open>
  Claim C6, as stated: two requests for the same passage issue exactly one call of the
  text service. The service can answer a call with a stream that ends normally and
  carries no text; nothing raises, \<^verbatim>\<open>if (fullText)\<close> keeps the empty text out of the
  cache, and the second request calls the service again.
\<close>

theorem empty_answer_is_fetched_twice:
  "thrown (fst (request_twice trim_ascii answers_nothing ''Genesis'' ''1'' None None fresh_session)) = None
   \<and> thrown (fst (snd (request_twice trim_ascii answers_nothing ''Genesis'' ''1'' None None fresh_session))) = None
   \<and> length (calls (snd (snd (request_twice trim_ascii answers_nothing ''Genesis'' ''1'' None None
        fresh_session)))) = 2"
  by (simp add: cache_defs answers_nothing_def trim_ascii_def is_space_def)

text \<open>
  Claim C6, amended. For every book and chapter:
  a request that finds a non-empty cached text yields it and issues no call;
  two requests in a row issue exactly one call when the first one misses and its stream
  ends normally with a text that is non-empty, also after trimming (the trimmed text is
  stored and the second request yields it);
  a request that raises stores nothing, and after it a second request calls the service
  again;
  a request that misses and whose stream ends normally without any text raises nothing,
  issues one call and leaves \<^verbatim>\<open>sessionStorage\<close> as it was (the empty text is not cached), and
  after it a second request calls the service again.
\<close>

theorem passage_cache_roundtrip:
  "(truthy_text (fmlookup (sessionStorage w) (cacheKey book chapter)) \<longrightarrow>
      streamPassageText trim service book chapter vc1 w =
        (\<lparr>yielded = [the (fmlookup (sessionStorage w) (cacheKey book chapter))], thrown = None\<rparr>, w))
   \<and> (\<not> truthy_text (fmlookup (sessionStorage w) (cacheKey book chapter))
        \<and> truthy_text (apiKey w)
        \<and> service (length (calls w)) = Chunks cs False
        \<and> concat (chunk_texts cs) \<noteq> [] \<and> trim (concat (chunk_texts cs)) \<noteq> [] \<longrightarrow>
      (case request_twice trim service book chapter vc1 vc2 w of
         (o1, o2, w2) \<Rightarrow>
           o1 = \<lparr>yielded = chunk_texts cs, thrown = None\<rparr>
           \<and> o2 = \<lparr>yielded = [trim (concat (chunk_texts cs))], thrown = None\<rparr>
           \<and> length (calls w2) = length (calls w) + 1
           \<and> fmlookup (sessionStorage w2) (cacheKey book chapter)
               = Some (trim (concat (chunk_texts cs)))))
   \<and> (thrown (fst (streamPassageText trim service book chapter vc1 w)) \<noteq> None \<longrightarrow>
        sessionStorage (snd (streamPassageText trim service book chapter vc1 w)) = sessionStorage w)
   \<and> (\<not> truthy_text (fmlookup (sessionStorage w) (cacheKey book chapter))
        \<and> truthy_text (apiKey w)
        \<and> thrown (fst (request_twice trim service book chapter vc1 vc2 w)) \<noteq> None \<longrightarrow>
      length (calls (snd (snd (request_twice trim service book chapter vc1 vc2 w))))
        = length (calls w) + 2)
   \<and> (\<not> truthy_text (fmlookup (sessionStorage w) (cacheKey book chapter))
        \<and> truthy_text (apiKey w)
        \<and> service (length (calls w)) = Chunks cs False
        \<and> concat (chunk_texts cs) = [] \<longrightarrow>
      streamPassageText trim service book chapter vc1 w =
        (\<lparr>yielded = chunk_texts cs, thrown = None\<rparr>,
         w\<lparr>calls := calls w @
              [\<lparr>req_book = book, req_chapter = chapter, req_verseCount = vc1\<rparr>]\<rparr>)
      \<and> sessionStorage (snd (streamPassageText trim service book chapter vc1 w))
            = sessionStorage w
      \<and> length (calls (snd (snd (request_twice trim service book chapter vc1 vc2 w))))
            = length (calls w) + 2)"
proof (intro conjI impI)
  assume "truthy_text (fmlookup (sessionStorage w) (cacheKey book chapter))"
  then show "streamPassageText trim service book chapter vc1 w =
        (\<lparr>yielded = [the (fmlookup (sessionStorage w) (cacheKey book chapter))], thrown = None\<rparr>, w)"
    by (rule cache_hit)
next
  assume a: "\<not> truthy_text (fmlookup (sessionStorage w) (cacheKey book chapter))
        \<and> truthy_text (apiKey w)
        \<and> service (length (calls w)) = Chunks cs False
        \<and> concat (chunk_texts cs) \<noteq> [] \<and> trim (concat (chunk_texts cs)) \<noteq> []"
  show "case request_twice trim service book chapter vc1 vc2 w of
         (o1, o2, w2) \<Rightarrow>
           o1 = \<lparr>yielded = chunk_texts cs, thrown = None\<rparr>
           \<and> o2 = \<lparr>yielded = [trim (concat (chunk_texts cs))], thrown = None\<rparr>
           \<and> length (calls w2) = length (calls w) + 1
           \<and> fmlookup (sessionStorage w2) (cacheKey book chapter)
               = Some (trim (concat (chunk_texts cs)))"
    using a by (simp add: cache_twice_success)
next
  assume "thrown (fst (streamPassageText trim service book chapter vc1 w)) \<noteq> None"
  then show "sessionStorage (snd (streamPassageText trim service book chapter vc1 w))
             = sessionStorage w"
    by (rule cache_failure_stores_nothing)
next
  assume "\<not> truthy_text (fmlookup (sessionStorage w) (cacheKey book chapter))
        \<and> truthy_text (apiKey w)
        \<and> thrown (fst (request_twice trim service book chapter vc1 vc2 w)) \<noteq> None"
  then show "length (calls (snd (snd (request_twice trim service book chapter vc1 vc2 w))))
        = length (calls w) + 2"
    by (simp add: cache_twice_failure)
next
  assume a: "\<not> truthy_text (fmlookup (sessionStorage w) (cacheKey book chapter))
        \<and> truthy_text (apiKey w)
        \<and> service (length (calls w)) = Chunks cs False
        \<and> concat (chunk_texts cs) = []"
  then show 1: "streamPassageText trim service book chapter vc1 w =
        (\<lparr>yielded = chunk_texts cs, thrown = None\<rparr>,
         w\<lparr>calls := calls w @
              [\<lparr>req_book = book, req_chapter = chapter, req_verseCount = vc1\<rparr>]\<rparr>)"
    by (simp add: cache_miss_empty)
  show "sessionStorage (snd (streamPassageText trim service book chapter vc1 w))
            = sessionStorage w"
    unfolding 1 by simp
  show "length (calls (snd (snd (request_twice trim service book chapter vc1 vc2 w))))
            = length (calls w) + 2"
    using a by (simp add: cache_twice_empty)
qed

theorem passage_cache_roundtrip_witness:
  "truthy_text (fmlookup (sessionStorage cached_session) (cacheKey ''Genesis'' ''1''))
   \<and> streamPassageText trim_ascii answers_text ''Genesis'' ''1'' None cached_session
       = (\<lparr>yielded = [''1. Hello''], thrown = None\<rparr>, cached_session)
   \<and> \<not> truthy_text (fmlookup (sessionStorage fresh_session) (cacheKey ''Genesis'' ''1''))
   \<and> truthy_text (apiKey fresh_session)
   \<and> trim_ascii (concat (chunk_texts [Some ''1. Hello'', None, Some [CHR 0x0A], Some ''2. World '']))
       = ''1. Hello'' @ [CHR 0x0A] @ ''2. World''
   \<and> length (calls (snd (snd (request_twice trim_ascii answers_text ''Genesis'' ''1'' None None
        fresh_session)))) = 1
   \<and> yielded (fst (snd (request_twice trim_ascii answers_text ''Genesis'' ''1'' None None
        fresh_session))) = [''1. Hello'' @ [CHR 0x0A] @ ''2. World'']
   \<and> thrown (fst (streamPassageText trim_ascii answers_broken ''Genesis'' ''1'' None fresh_session))
       = Some ServiceError
   \<and> sessionStorage (snd (streamPassageText trim_ascii answers_broken ''Genesis'' ''1'' None
        fresh_session)) = fmempty
   \<and> length (calls (snd (snd (request_twice trim_ascii answers_broken ''Genesis'' ''1'' None None
        fresh_session)))) = 2
   \<and> answers_nothing (length (calls fresh_session)) = Chunks [] False
   \<and> concat (chunk_texts []) = ([] :: string)
   \<and> thrown (fst (streamPassageText trim_ascii answers_nothing ''Genesis'' ''1'' None fresh_session))
       = None
   \<and> sessionStorage (snd (streamPassageText trim_ascii answers_nothing ''Genesis'' ''1'' None
        fresh_session)) = fmempty
   \<and> length (calls (snd (streamPassageText trim_ascii answers_nothing ''Genesis'' ''1'' None
        fresh_session))) = 1"
proof -
  let ?cs = "[Some ''1. Hello'', None, Some [CHR 0x0A], Some ''2. World '']"
  have h1: "truthy_text (fmlookup (sessionStorage cached_session) (cacheKey ''Genesis'' ''1''))"
    by (simp add: cached_session_def cacheKey_def truthy_text_def)
  have v1: "the (fmlookup (sessionStorage cached_session) (cacheKey ''Genesis'' ''1'')) = ''1. Hello''"
    by (simp add: cached_session_def cacheKey_def)
  have h2: "\<not> truthy_text (fmlookup (sessionStorage fresh_session) (cacheKey ''Genesis'' ''1''))"
    by (simp add: fresh_session_def truthy_text_def)
  have h3: "truthy_text (apiKey fresh_session)"
    by (simp add: fresh_session_def truthy_text_def apiKey_def)
  have h4: "answers_text (length (calls fresh_session)) = Chunks ?cs False"
    by (simp add: answers_text_def)
  have h5: "concat (chunk_texts ?cs) \<noteq> []"
    by (simp add: chunk_texts_def truthy_text_def)
  have h6: "trim_ascii (concat (chunk_texts ?cs)) = ''1. Hello'' @ [CHR 0x0A] @ ''2. World''"
    by (simp add: chunk_texts_def truthy_text_def trim_ascii_def is_space_def)
  have h7: "thrown (fst (streamPassageText trim_ascii answers_broken ''Genesis'' ''1'' None fresh_session))
            = Some ServiceError"
    by (simp add: cache_defs answers_broken_def)
  have h8: "thrown (fst (request_twice trim_ascii answers_broken ''Genesis'' ''1'' None None fresh_session))
            \<noteq> None"
    by (simp add: cache_defs answers_broken_def)
  have f: "sessionStorage fresh_session = fmempty" by (simp add: fresh_session_def)
  have c: "length (calls fresh_session) = 0" by (simp add: fresh_session_def)
  note A = passage_cache_roundtrip[of cached_session "''Genesis''" "''1''" trim_ascii answers_text None ?cs None]
  note B = passage_cache_roundtrip[of fresh_session "''Genesis''" "''1''" trim_ascii answers_text None ?cs None]
  note C = passage_cache_roundtrip[of fresh_session "''Genesis''" "''1''" trim_ascii answers_broken None ?cs None]
  have a: "streamPassageText trim_ascii answers_text ''Genesis'' ''1'' None cached_session
       = (\<lparr>yielded = [''1. Hello''], thrown = None\<rparr>, cached_session)"
    using A h1 v1 by simp
  have b: "length (calls (snd (snd (request_twice trim_ascii answers_text ''Genesis'' ''1'' None None
        fresh_session)))) = 1
      \<and> yielded (fst (snd (request_twice trim_ascii answers_text ''Genesis'' ''1'' None None
        fresh_session))) = [''1. Hello'' @ [CHR 0x0A] @ ''2. World'']"
    using B h2 h3 h4 h5 h6 c by (auto simp: split_def)
  have d: "sessionStorage (snd (streamPassageText trim_ascii answers_broken ''Genesis'' ''1'' None
        fresh_session)) = fmempty
      \<and> length (calls (snd (snd (request_twice trim_ascii answers_broken ''Genesis'' ''1'' None None
        fresh_session)))) = 2"
    using C h2 h3 h7 h8 f c by simp
  have h9: "answers_nothing (length (calls fresh_session)) = Chunks [] False"
    by (simp add: answers_nothing_def)
  have h10: "concat (chunk_texts []) = ([] :: string)"
    by (simp add: chunk_texts_def)
  note D = passage_cache_roundtrip[of fresh_session "''Genesis''" "''1''" trim_ascii answers_nothing None "[]" None]
  have e0: "streamPassageText trim_ascii answers_nothing ''Genesis'' ''1'' None fresh_session =
        (\<lparr>yielded = chunk_texts [], thrown = None\<rparr>,
         fresh_session\<lparr>calls := calls fresh_session @
              [\<lparr>req_book = ''Genesis'', req_chapter = ''1'', req_verseCount = None\<rparr>]\<rparr>)
      \<and> sessionStorage (snd (streamPassageText trim_ascii answers_nothing ''Genesis'' ''1'' None
        fresh_session)) = sessionStorage fresh_session"
    using D h2 h3 h9 h10 by blast
  have e: "thrown (fst (streamPassageText trim_ascii answers_nothing ''Genesis'' ''1'' None fresh_session))
       = None
      \<and> sessionStorage (snd (streamPassageText trim_ascii answers_nothing ''Genesis'' ''1'' None
        fresh_session)) = fmempty
      \<and> length (calls (snd (streamPassageText trim_ascii answers_nothing ''Genesis'' ''1'' None
        fresh_session))) = 1"
    using e0 f c by simp
  show ?thesis using h1 a h2 h3 h6 b h7 d h9 h10 e by blast
qed

section \<open>Properties of the chapter playback sequencer\<close>

subsection \<open>Suspensions\<close>

lemma handle_keeps_logs:
  "started (handle c e a) = started a \<and> timeouts (handle c e a) = timeouts a
   \<and> console_errors (handle c e a) = console_errors a"
  by (cases e) (simp_all add: cleanupChapterAudio_def)

lemma fold_handle_keeps_logs:
  "started (fold (handle c) evs a) = started a \<and> timeouts (fold (handle c) evs a) = timeouts a
   \<and> console_errors (fold (handle c) evs a) = console_errors a"
  by (induction evs arbitrary: a) (simp_all add: handle_keeps_logs)

lemma handle_no_cancel:
  "Cancel \<noteq> e \<Longrightarrow> controllers (handle c e a) = controllers a
     \<and> playbackController (handle c e a) = playbackController a
     \<and> stopped (handle c e a) = stopped a
     \<and> chapterAudioState (handle c e a) = chapterAudioState a"
  by (cases e) simp_all

lemma fold_handle_no_cancel:
  "Cancel \<notin> set evs \<Longrightarrow> controllers (fold (handle c) evs a) = controllers a
     \<and> playbackController (fold (handle c) evs a) = playbackController a
     \<and> stopped (fold (handle c) evs a) = stopped a
     \<and> chapterAudioState (fold (handle c) evs a) = chapterAudioState a"
  by (induction evs arbitrary: a) (simp_all add: handle_no_cancel)

subsection \<open>The window of promises\<close>

lemma window_push:
  "i < length verses \<Longrightarrow>
   (if i + prefetchCount < length verses then window verses i @ [i + prefetchCount] else window verses i)
   = window verses (Suc i)"
proof (cases "i + prefetchCount < length verses")
  case True
  then have "min (length verses) (i + prefetchCount) = i + prefetchCount"
    and "min (length verses) (Suc i + prefetchCount) = Suc (i + prefetchCount)" by auto
  then show ?thesis using True by (simp add: window_def)
next
  case False
  then have "min (length verses) (i + prefetchCount) = length verses"
    and "min (length verses) (Suc i + prefetchCount) = length verses" by auto
  then show ?thesis using False by (simp add: window_def)
qed

lemma window_nth: "i < length verses \<Longrightarrow> i < length (window verses (Suc i)) \<and> window verses (Suc i) ! i = i"
  by (auto simp: window_def prefetchCount_def)

lemma loop_entry_window: "audioPromises (fst (loop_entry E verses a)) = window verses 0"
  by (simp add: loop_entry_def window_def min.commute)

subsection \<open>One iteration\<close>

lemma iteration_cancelled: "controllers a c \<Longrightarrow> iteration E verses rate c i (l, a) = Break (l, a)"
  by (simp add: iteration_def)

lemma iteration_window:
  assumes "i < length verses" and "audioPromises l = window verses i"
  shows "iteration E verses rate c i (l, a) =
     (if controllers a c then Break (l, a)
      else if controllers (fold (handle c) (events E i) a) c
      then Break (l\<lparr>audioPromises := window verses (Suc i)\<rparr>, fold (handle c) (events E i) a)
      else Continue (after_await E verses rate c i (l, a)))"
proof -
  let ?l1 = "if i + prefetchCount < length verses
             then l\<lparr>audioPromises := audioPromises l @ [i + prefetchCount]\<rparr> else l"
  have l1: "?l1 = l\<lparr>audioPromises := window verses (Suc i)\<rparr>"
    using window_push[OF assms(1)] assms(2) by (auto split: if_splits)
  show ?thesis
    unfolding iteration_def prod.case Let_def l1 after_await_def
    using window_nth[OF assms(1)] fold_handle_keeps_logs[of c "events E i" a]
    by (auto split: option.splits)
qed

lemma after_await_facts:
  "audioPromises (fst (after_await E verses rate c i (l, a))) = window verses (Suc i)"
  "controllers (snd (after_await E verses rate c i (l, a))) = controllers (fold (handle c) (events E i) a)"
  "playbackController (snd (after_await E verses rate c i (l, a)))
     = playbackController (fold (handle c) (events E i) a)"
  "started (snd (after_await E verses rate c i (l, a)))
     = started a @ planned rate (nextStartTime l) [(vnumber (verses ! i), fetched E i, clock E i)]"
  "nextStartTime (fst (after_await E verses rate c i (l, a)))
     = planned_next rate (nextStartTime l) [(vnumber (verses ! i), fetched E i, clock E i)]"
  by (auto simp: after_await_def fold_handle_keeps_logs split: option.splits)

subsection \<open>The loop\<close>

lemma observed_Cons:
  "i < length verses \<Longrightarrow>
   observed E verses i = (vnumber (verses ! i), fetched E i, clock E i) # observed E verses (Suc i)"
  by (simp add: observed_def upt_conv_Cons)

lemma observed_Nil: "\<not> i < length verses \<Longrightarrow> observed E verses i = []"
  by (simp add: observed_def)

lemma planned_append:
  "planned rate nxt (xs @ ys) = planned rate nxt xs @ planned rate (planned_next rate nxt xs) ys"
  by (induction rate nxt xs rule: planned.induct) simp_all

lemma planned_next_append:
  "planned_next rate nxt (xs @ ys) = planned_next rate (planned_next rate nxt xs) ys"
  by (induction rate nxt xs rule: planned_next.induct) simp_all

lemma planned_Cons:
  "planned rate nxt (x # xs) = planned rate nxt [x] @ planned rate (planned_next rate nxt [x]) xs"
  using planned_append[of rate nxt "[x]" xs] by simp

lemma planned_next_Cons:
  "planned_next rate nxt (x # xs) = planned_next rate (planned_next rate nxt [x]) xs"
  using planned_next_append[of rate nxt "[x]" xs] by simp

lemma loop_not_cancelled:
  assumes "\<not> controllers (snd (loop E verses rate c i (l, a))) c"
    and "audioPromises l = window verses i"
  shows "started (snd (loop E verses rate c i (l, a)))
           = started a @ planned rate (nextStartTime l) (observed E verses i)
         \<and> nextStartTime (fst (loop E verses rate c i (l, a)))
           = planned_next rate (nextStartTime l) (observed E verses i)"
  using assms
proof (induction "length verses - i" arbitrary: i l a)
  case 0
  then have "\<not> i < length verses" by simp
  then show ?case by (simp add: observed_Nil)
next
  case (Suc n)
  then have i: "i < length verses" by simp
  let ?a1 = "fold (handle c) (events E i) a"
  have it: "iteration E verses rate c i (l, a) =
     (if controllers a c then Break (l, a)
      else if controllers ?a1 c
      then Break (l\<lparr>audioPromises := window verses (Suc i)\<rparr>, ?a1)
      else Continue (after_await E verses rate c i (l, a)))"
    using iteration_window[OF i Suc.prems(2)] .
  have nc: "\<not> controllers a c" "\<not> controllers ?a1 c"
    using Suc.prems(1) i it by (auto simp: split: if_splits)
  obtain l' a' where s': "after_await E verses rate c i (l, a) = (l', a')"
    by (cases "after_await E verses rate c i (l, a)")
  have lp: "loop E verses rate c i (l, a) = loop E verses rate c (Suc i) (l', a')"
    using i it nc s' by simp
  have w: "audioPromises l' = window verses (Suc i)"
    using after_await_facts(1)[of E verses rate c i l a] s' by simp
  have n: "n = length verses - Suc i" using Suc.hyps(2) by simp
  have ih: "started (snd (loop E verses rate c (Suc i) (l', a')))
           = started a' @ planned rate (nextStartTime l') (observed E verses (Suc i))
         \<and> nextStartTime (fst (loop E verses rate c (Suc i) (l', a')))
           = planned_next rate (nextStartTime l') (observed E verses (Suc i))"
    using Suc.hyps(1)[OF n _ w] Suc.prems(1) lp by simp
  have st: "started a' = started a @ planned rate (nextStartTime l) [(vnumber (verses ! i), fetched E i, clock E i)]"
    "nextStartTime l' = planned_next rate (nextStartTime l) [(vnumber (verses ! i), fetched E i, clock E i)]"
    using after_await_facts(4,5)[of E verses rate c i l a] s' by simp_all
  show ?case
    unfolding lp observed_Cons[OF i]
    using ih st planned_Cons[of rate "nextStartTime l" _ "observed E verses (Suc i)"]
      planned_next_Cons[of rate "nextStartTime l" _ "observed E verses (Suc i)"]
    by simp
qed

lemma loop_no_cancel_events:
  assumes "\<not> controllers a c"
    and "\<forall>j. i \<le> j \<and> j < length verses \<longrightarrow> Cancel \<notin> set (events E j)"
    and "audioPromises l = window verses i"
  shows "\<not> controllers (snd (loop E verses rate c i (l, a))) c"
  using assms
proof (induction "length verses - i" arbitrary: i l a)
  case 0
  then show ?case by simp
next
  case (Suc n)
  then have i: "i < length verses" by simp
  let ?a1 = "fold (handle c) (events E i) a"
  have c1: "controllers ?a1 = controllers a"
    using fold_handle_no_cancel[of "events E i" c a] Suc.prems(2) i by auto
  obtain l' a' where s': "after_await E verses rate c i (l, a) = (l', a')"
    by (cases "after_await E verses rate c i (l, a)")
  have lp: "loop E verses rate c i (l, a) = loop E verses rate c (Suc i) (l', a')"
    using i iteration_window[OF i Suc.prems(3)] Suc.prems(1) c1 s' by simp
  have w: "audioPromises l' = window verses (Suc i)"
    using after_await_facts(1)[of E verses rate c i l a] s' by simp
  have nc': "\<not> controllers a' c"
    using after_await_facts(2)[of E verses rate c i l a] s' c1 Suc.prems(1) by simp
  have n: "n = length verses - Suc i" using Suc.hyps(2) by simp
  show ?case unfolding lp
    using Suc.hyps(1)[OF n nc' _ w] Suc.prems(2) by simp
qed

subsection \<open>The planned schedule\<close>

lemma durations_positive_Cons:
  "durations_positive ((vn, r, now) # xs) \<longleftrightarrow> (\<forall>d. r = Some d \<longrightarrow> 0 < d) \<and> durations_positive xs"
  by (auto simp: durations_positive_def)

lemma planned_lower:
  "0 < rate \<Longrightarrow> durations_positive xs \<Longrightarrow> s \<in> set (planned rate nxt xs) \<Longrightarrow> nxt \<le> startAt s"
proof (induction rate nxt xs rule: planned.induct)
  case (1 rate nxt)
  then show ?case by simp
next
  case (2 rate nxt vn now xs)
  then show ?case by (simp add: durations_positive_Cons)
next
  case (3 rate nxt vn d now xs)
  then have d: "0 < d" and ps: "durations_positive xs" by (simp_all add: durations_positive_Cons)
  have step: "nxt \<le> max nxt now + d / rate"
    using d 3(2) by (simp add: add_increasing2 max.coboundedI1)
  from 3(4) consider "startAt s = max nxt now" | "s \<in> set (planned rate (max nxt now + d / rate) xs)"
    by auto
  then show ?case
  proof cases
    case 1
    then show ?thesis by simp
  next
    case 2
    then have "max nxt now + d / rate \<le> startAt s" using 3(1)[OF 3(2) ps] by simp
    then show ?thesis using step by linarith
  qed
qed

lemma planned_no_overlap:
  "0 < rate \<Longrightarrow> durations_positive xs \<Longrightarrow>
   sorted_wrt (\<lambda>s t. clip_end s \<le> startAt t) (planned rate nxt xs)"
proof (induction rate nxt xs rule: planned.induct)
  case (1 rate nxt)
  then show ?case by simp
next
  case (2 rate nxt vn now xs)
  then show ?case by (simp add: durations_positive_Cons)
next
  case (3 rate nxt vn d now xs)
  then have ps: "durations_positive xs" by (simp add: durations_positive_Cons)
  show ?case
    using 3(1)[OF 3(2) ps] planned_lower[OF 3(2) ps]
    by (auto simp: clip_end_def)
qed

lemma planned_increasing:
  "0 < rate \<Longrightarrow> durations_positive xs \<Longrightarrow>
   sorted_wrt (<) (map startAt (planned rate nxt xs))"
proof (induction rate nxt xs rule: planned.induct)
  case (1 rate nxt)
  then show ?case by simp
next
  case (2 rate nxt vn now xs)
  then show ?case by (simp add: durations_positive_Cons)
next
  case (3 rate nxt vn d now xs)
  then have d: "0 < d" and ps: "durations_positive xs" by (simp_all add: durations_positive_Cons)
  have pos: "0 < d / rate" using d 3(2) by simp
  have "\<forall>s \<in> set (planned rate (max nxt now + d / rate) xs). max nxt now < startAt s"
  proof
    fix s assume "s \<in> set (planned rate (max nxt now + d / rate) xs)"
    then have "max nxt now + d / rate \<le> startAt s" using planned_lower[OF 3(2) ps] by blast
    then show "max nxt now < startAt s" using pos by linarith
  qed
  then show ?case using 3(1)[OF 3(2) ps] by auto
qed

lemma planned_numbers:
  "map verseNumber (planned rate nxt xs) = map fst (filter (\<lambda>x. fst (snd x) \<noteq> None) xs)"
  by (induction rate nxt xs rule: planned.induct) simp_all

lemma planned_member:
  "(vn, Some d, now) \<in> set xs \<Longrightarrow>
   \<exists>s \<in> set (planned rate nxt xs). verseNumber s = vn \<and> bufferDuration s = d"
  by (induction rate nxt xs rule: planned.induct) auto

lemma planned_next_last:
  "planned_next rate nxt xs =
     (if planned rate nxt xs = [] then nxt else clip_end (last (planned rate nxt xs)))"
  by (induction rate nxt xs rule: planned.induct) (auto simp: clip_end_def)

lemma observed_numbers:
  "map fst (filter (\<lambda>x. fst (snd x) \<noteq> None) (observed E verses 0))
   = map (\<lambda>i. vnumber (verses ! i)) (filter (\<lambda>i. fetched E i \<noteq> None) [0..<length verses])"
  by (simp add: observed_def filter_map comp_def)

lemma length_filter_complement:
  "length (filter P xs) = length xs - length (filter (\<lambda>x. \<not> P x) xs)"
  using sum_length_filter_compl[of P xs] by simp

lemma observed_positive:
  "(\<forall>i<length verses. \<forall>d. fetched E i = Some d \<longrightarrow> 0 < d) \<Longrightarrow> durations_positive (observed E verses 0)"
  by (auto simp: durations_positive_def observed_def)

subsection \<open>States on the way\<close>

lemma reached_inv:
  "reached E verses rate c a k = Some (l, ak) \<Longrightarrow> \<not> controllers a c \<Longrightarrow>
   audioPromises l = window verses k \<and> \<not> controllers ak c \<and> k \<le> length verses"
proof (induction k arbitrary: l ak)
  case 0
  then show ?case using loop_entry_window[of E verses a] by (auto simp: loop_entry_def)
next
  case (Suc k)
  from Suc.prems(1) obtain l0 a0 where r: "reached E verses rate c a k = Some (l0, a0)"
    and k: "k < length verses"
    and it: "iteration E verses rate c k (l0, a0) = Continue (l, ak)"
    by (auto split: option.splits if_splits step.splits)
  have inv: "audioPromises l0 = window verses k" "\<not> controllers a0 c"
    using Suc.IH[OF r Suc.prems(2)] by auto
  have e: "\<not> controllers (fold (handle c) (events E k) a0) c"
    "(l, ak) = after_await E verses rate c k (l0, a0)"
    using it iteration_window[OF k inv(1), of E rate c a0] inv(2) by (auto split: if_splits)
  show ?case
    using after_await_facts(1,2)[of E verses rate c k l0 a0] e k by (metis Suc_leI fst_conv snd_conv)
qed

lemma loop_reached:
  "reached E verses rate c a k = Some s \<Longrightarrow>
   loop E verses rate c 0 (loop_entry E verses a) = loop E verses rate c k s"
proof (induction k arbitrary: s)
  case 0
  then show ?case by simp
next
  case (Suc k)
  from Suc.prems obtain s0 where r: "reached E verses rate c a k = Some s0"
    and k: "k < length verses"
    and it: "iteration E verses rate c k s0 = Continue s"
    by (auto split: option.splits if_splits step.splits)
  have "loop E verses rate c k s0 = loop E verses rate c (Suc k) s"
    using k it by (subst loop.simps) simp
  then show ?case using Suc.IH[OF r] by simp
qed

subsection \<open>Cancellation during a suspension\<close>

lemma handle_torn_down: "torn_down c a \<Longrightarrow> torn_down c (handle c e a)"
  by (cases e) (auto simp: torn_down_def cleanupChapterAudio_def)

lemma fold_torn_down: "torn_down c a \<Longrightarrow> torn_down c (fold (handle c) evs a)"
  by (induction evs arbitrary: a) (simp_all add: handle_torn_down)

lemma cleanup_torn_down: "playbackController a = Some c \<Longrightarrow> torn_down c (cleanupChapterAudio a)"
  by (simp add: torn_down_def cleanupChapterAudio_def)

lemma fold_cancel_torn_down:
  "playbackController a = Some c \<Longrightarrow> Cancel \<in> set evs \<Longrightarrow> torn_down c (fold (handle c) evs a)"
proof (induction evs arbitrary: a)
  case Nil
  then show ?case by simp
next
  case (Cons e evs)
  show ?case
  proof (cases "e = Cancel")
    case True
    then show ?thesis using Cons.prems(1) by (simp add: fold_torn_down cleanup_torn_down)
  next
    case False
    then have "playbackController (handle c e a) = Some c" "Cancel \<in> set evs"
      using Cons.prems handle_no_cancel[of e c a] by auto
    then show ?thesis using Cons.IH by simp
  qed
qed

lemma fold_unflagged_no_cancel:
  "playbackController a = Some c \<Longrightarrow> \<not> controllers (fold (handle c) evs a) c \<Longrightarrow> Cancel \<notin> set evs"
  using fold_cancel_torn_down[of a c evs] by (auto simp: torn_down_def)

lemma handle_sources_accounted:
  "set (activeAudioSources a) \<union> set (stopped a)
   \<subseteq> set (activeAudioSources (handle c e a)) \<union> set (stopped (handle c e a)) \<union> {s. e = Ended s}"
  by (cases e) (auto simp: cleanupChapterAudio_def)

lemma fold_sources_accounted:
  "set (activeAudioSources a) \<union> set (stopped a)
   \<subseteq> set (activeAudioSources (fold (handle c) evs a)) \<union> set (stopped (fold (handle c) evs a))
       \<union> {s. Ended s \<in> set evs}"
proof (induction evs arbitrary: a)
  case Nil
  then show ?case by simp
next
  case (Cons e evs)
  have 1: "set (activeAudioSources a) \<union> set (stopped a)
     \<subseteq> set (activeAudioSources (handle c e a)) \<union> set (stopped (handle c e a)) \<union> {s. e = Ended s}"
    by (rule handle_sources_accounted)
  have 2: "set (activeAudioSources (handle c e a)) \<union> set (stopped (handle c e a))
     \<subseteq> set (activeAudioSources (fold (handle c) evs (handle c e a)))
        \<union> set (stopped (fold (handle c) evs (handle c e a))) \<union> {s. Ended s \<in> set evs}"
    by (rule Cons.IH)
  show ?case using 1 2 by auto
qed

lemma fold_active_subset:
  "set (activeAudioSources (fold (handle c) evs a)) \<subseteq> set (activeAudioSources a)"
proof (induction evs arbitrary: a)
  case Nil
  then show ?case by simp
next
  case (Cons e evs)
  have "set (activeAudioSources (handle c e a)) \<subseteq> set (activeAudioSources a)"
    by (cases e) (auto simp: cleanupChapterAudio_def)
  then show ?case using Cons.IH[of "handle c e a"] by auto
qed

lemma reached_controller:
  "reached E verses rate c a k = Some (l, ak) \<Longrightarrow> \<not> controllers a c \<Longrightarrow>
   playbackController a = Some c \<Longrightarrow> playbackController ak = Some c"
proof (induction k arbitrary: l ak)
  case 0
  then show ?case by (auto simp: loop_entry_def)
next
  case (Suc k)
  from Suc.prems(1) obtain l0 a0 where r: "reached E verses rate c a k = Some (l0, a0)"
    and k: "k < length verses"
    and it: "iteration E verses rate c k (l0, a0) = Continue (l, ak)"
    by (auto split: option.splits if_splits step.splits)
  have inv: "audioPromises l0 = window verses k" "\<not> controllers a0 c"
    using reached_inv[OF r Suc.prems(2)] by auto
  have pc: "playbackController a0 = Some c" using Suc.IH[OF r Suc.prems(2,3)] .
  have e: "\<not> controllers (fold (handle c) (events E k) a0) c"
    "(l, ak) = after_await E verses rate c k (l0, a0)"
    using it iteration_window[OF k inv(1), of E rate c a0] inv(2) by (auto split: if_splits)
  have "Cancel \<notin> set (events E k)" using fold_unflagged_no_cancel[OF pc e(1)] .
  then have "playbackController (fold (handle c) (events E k) a0) = Some c"
    using fold_handle_no_cancel pc by metis
  then show ?case
    using after_await_facts(3)[of E verses rate c k l0 a0] e(2) by (metis snd_conv)
qed

lemma reached_no_cancel:
  assumes "\<not> controllers a c" "\<forall>i<length verses. Cancel \<notin> set (events E i)"
  shows "k \<le> length verses \<Longrightarrow> \<exists>s. reached E verses rate c a k = Some s"
proof (induction k)
  case 0
  then show ?case by simp
next
  case (Suc k)
  then obtain l0 a0 where r: "reached E verses rate c a k = Some (l0, a0)" and k: "k < length verses"
    by fastforce
  have inv: "audioPromises l0 = window verses k" "\<not> controllers a0 c"
    using reached_inv[OF r assms(1)] by auto
  have "controllers (fold (handle c) (events E k) a0) = controllers a0"
    using fold_handle_no_cancel assms(2) k by metis
  then have "iteration E verses rate c k (l0, a0) = Continue (after_await E verses rate c k (l0, a0))"
    using iteration_window[OF k inv(1), of E rate c a0] inv(2) by simp
  then show ?case using r k by simp
qed

lemma reached_step:
  assumes "reached E verses rate c a k = Some (l, ak)" "k < length verses" "\<not> controllers a c"
    and "Cancel \<notin> set (events E k)"
  shows "reached E verses rate c a (Suc k) = Some (after_await E verses rate c k (l, ak))"
proof -
  have inv: "audioPromises l = window verses k" "\<not> controllers ak c"
    using reached_inv[OF assms(1,3)] by auto
  have "controllers (fold (handle c) (events E k) ak) = controllers ak"
    using fold_handle_no_cancel assms(4) by metis
  then have "iteration E verses rate c k (l, ak) = Continue (after_await E verses rate c k (l, ak))"
    using iteration_window[OF assms(2) inv(1), of E rate c ak] inv(2) by simp
  then show ?thesis using assms(1,2) by simp
qed

text \<open>Every source that was started is active, was stopped, or has ended.\<close>

lemma after_await_accounted:
  assumes "(l', a') = after_await E verses rate c k (l, a)"
  shows "set (started a') \<subseteq> set (started a) \<union> set (activeAudioSources a')"
    and "set (activeAudioSources a) \<union> set (stopped a)
         \<subseteq> set (activeAudioSources a') \<union> set (stopped a') \<union> {s. Ended s \<in> set (events E k)}"
proof -
  let ?f = "fold (handle c) (events E k) a"
  have f: "set (activeAudioSources a) \<union> set (stopped a)
     \<subseteq> set (activeAudioSources ?f) \<union> set (stopped ?f) \<union> {s. Ended s \<in> set (events E k)}"
    by (rule fold_sources_accounted)
  have 1: "set (activeAudioSources ?f) \<subseteq> set (activeAudioSources a')" "stopped a' = stopped ?f"
    using assms by (auto simp: after_await_def split: option.splits)
  show "set (started a') \<subseteq> set (started a) \<union> set (activeAudioSources a')"
    using assms by (auto simp: after_await_def fold_handle_keeps_logs split: option.splits)
  show "set (activeAudioSources a) \<union> set (stopped a)
         \<subseteq> set (activeAudioSources a') \<union> set (stopped a') \<union> {s. Ended s \<in> set (events E k)}"
    using f 1 by auto
qed

lemma reached_started_accounted:
  "reached E verses rate c a k = Some (l, ak) \<Longrightarrow> \<not> controllers a c \<Longrightarrow>
   set (started ak) \<subseteq> set (started a) \<union> set (activeAudioSources ak) \<union> set (stopped ak)
      \<union> {s. \<exists>i<k. Ended s \<in> set (events E i)}"
proof (induction k arbitrary: l ak)
  case 0
  then show ?case by (auto simp: loop_entry_def)
next
  case (Suc k)
  from Suc.prems(1) obtain l0 a0 where r: "reached E verses rate c a k = Some (l0, a0)"
    and k: "k < length verses"
    and it: "iteration E verses rate c k (l0, a0) = Continue (l, ak)"
    by (auto split: option.splits if_splits step.splits)
  have inv: "audioPromises l0 = window verses k" "\<not> controllers a0 c"
    using reached_inv[OF r Suc.prems(2)] by auto
  have e: "(l, ak) = after_await E verses rate c k (l0, a0)"
    using it iteration_window[OF k inv(1), of E rate c a0] inv(2) by (auto split: if_splits)
  have ih: "set (started a0) \<subseteq> set (started a) \<union> set (activeAudioSources a0) \<union> set (stopped a0)
      \<union> {s. \<exists>i<k. Ended s \<in> set (events E i)}"
    using Suc.IH[OF r Suc.prems(2)] .
  have 1: "set (started ak) \<subseteq> set (started a0) \<union> set (activeAudioSources ak)"
    and 2: "set (activeAudioSources a0) \<union> set (stopped a0)
         \<subseteq> set (activeAudioSources ak) \<union> set (stopped ak) \<union> {s. Ended s \<in> set (events E k)}"
    using after_await_accounted[OF e] by auto
  have 3: "{s. \<exists>i<k. Ended s \<in> set (events E i)} \<union> {s. Ended s \<in> set (events E k)}
           \<subseteq> {s. \<exists>i<Suc k. Ended s \<in> set (events E i)}"
    by (auto simp: less_Suc_eq)
  show ?case
  proof
    fix s assume "s \<in> set (started ak)"
    then consider "s \<in> set (started a0)" | "s \<in> set (activeAudioSources ak)" using 1 by auto
    then show "s \<in> set (started a) \<union> set (activeAudioSources ak) \<union> set (stopped ak)
      \<union> {s. \<exists>i<Suc k. Ended s \<in> set (events E i)}"
    proof cases
      case 1
      then have "s \<in> set (started a) \<union> set (activeAudioSources a0) \<union> set (stopped a0)
          \<union> {s. \<exists>i<k. Ended s \<in> set (events E i)}" using ih by auto
      then show ?thesis using 2 3 by blast
    next
      case 2
      then show ?thesis by simp
    qed
  qed
qed

lemma torn_down_final_timeout: "torn_down c a \<Longrightarrow> finalCleanupFires a = a"
  by (cases a) (simp add: torn_down_def finalCleanupFires_def cleanupChapterAudio_def)

lemma streamAndPlay_started:
  "started (snd (streamAndPlay E verses rate c a))
   = started (snd (loop E verses rate c 0 (loop_entry E verses a)))"
  "controllers (snd (streamAndPlay E verses rate c a))
   = controllers (snd (loop E verses rate c 0 (loop_entry E verses a)))"
  "nextStartTime (fst (streamAndPlay E verses rate c a))
   = nextStartTime (fst (loop E verses rate c 0 (loop_entry E verses a)))"
  by (auto simp: streamAndPlay_def split: prod.splits)

lemma run_not_cancelled:
  assumes "\<not> controllers (snd (streamAndPlay E verses rate c a)) c"
  shows "started (snd (streamAndPlay E verses rate c a))
           = started a @ planned rate (clock_start E) (observed E verses 0)"
    and "nextStartTime (fst (streamAndPlay E verses rate c a))
           = planned_next rate (clock_start E) (observed E verses 0)"
proof -
  obtain l0 a0 where e: "loop_entry E verses a = (l0, a0)" by (cases "loop_entry E verses a")
  then have w: "audioPromises l0 = window verses 0" using loop_entry_window[of E verses a] by simp
  have s: "started a0 = started a" "nextStartTime l0 = clock_start E"
    using e by (auto simp: loop_entry_def)
  have nc: "\<not> controllers (snd (loop E verses rate c 0 (l0, a0))) c"
    using assms e by (simp add: streamAndPlay_started)
  show "started (snd (streamAndPlay E verses rate c a))
           = started a @ planned rate (clock_start E) (observed E verses 0)"
    and "nextStartTime (fst (streamAndPlay E verses rate c a))
           = planned_next rate (clock_start E) (observed E verses 0)"
    using loop_not_cancelled[OF nc w] s e by (simp_all add: streamAndPlay_started)
qed

lemma run_no_cancel_events:
  assumes "\<not> controllers a c" "\<forall>i<length verses. Cancel \<notin> set (events E i)"
  shows "\<not> controllers (snd (streamAndPlay E verses rate c a)) c"
proof -
  obtain l0 a0 where e: "loop_entry E verses a = (l0, a0)" by (cases "loop_entry E verses a")
  then have w: "audioPromises l0 = window verses 0" using loop_entry_window[of E verses a] by simp
  have c0: "\<not> controllers a0 c" using e assms(1) by (auto simp: loop_entry_def)
  show ?thesis
    using loop_no_cancel_events[OF c0 _ w, of E rate] assms(2) e
    by (simp add: streamAndPlay_started)
qed

text \<open>Every rate the controls offer (and the initial rate 1.0) is positive.\<close>

lemma PLAYBACK_RATES_positive: "rate \<in> set PLAYBACK_RATES \<Longrightarrow> 0 < rate"
  by (auto simp: PLAYBACK_RATES_def)

lemmas run_defs = streamAndPlay_def loop_entry_def loop.simps iteration_def two_env_def two_verses_def
  fresh_app_def fetched_two_def no_events_def clock_zero_def no_flags_def prefetchCount_def Let_def
  cancel_second_def cancel_env_def fetched_second_only_def failing_env_def cleanupChapterAudio_def

text \<open>
  Claim C1: in a run that is not cancelled, at a positive playback rate and with clips
  of positive duration, the sources started are exactly the verses whose fetch
  succeeded, in verse order (their number is N minus the failures); the start times
  increase strictly and no clip begins before the one before it has ended; every
  successful verse starts at \<open>max nextStartTime currentTime\<close> and moves
  \<open>nextStartTime\<close> on by \<open>duration / rate\<close>.
\<close>

theorem sequencer_schedule:
  assumes "\<not> controllers a c"
    and "\<forall>i<length verses. Cancel \<notin> set (events E i)"
    and "0 < rate"
    and "\<forall>i<length verses. \<forall>d. fetched E i = Some d \<longrightarrow> 0 < d"
  shows "started (snd (streamAndPlay E verses rate c a))
           = started a @ planned rate (clock_start E) (observed E verses 0)
     \<and> length (planned rate (clock_start E) (observed E verses 0))
           = length verses - length (filter (\<lambda>i. fetched E i = None) [0..<length verses])
     \<and> map verseNumber (planned rate (clock_start E) (observed E verses 0))
           = map (\<lambda>i. vnumber (verses ! i)) (filter (\<lambda>i. fetched E i \<noteq> None) [0..<length verses])
     \<and> sorted_wrt (<) (map startAt (planned rate (clock_start E) (observed E verses 0)))
     \<and> sorted_wrt (\<lambda>s t. clip_end s \<le> startAt t) (planned rate (clock_start E) (observed E verses 0))
     \<and> (\<forall>k l ak d. reached E verses rate c a k = Some (l, ak) \<and> k < length verses
            \<and> fetched E k = Some d \<longrightarrow>
          (\<exists>l' a'. reached E verses rate c a (Suc k) = Some (l', a')
             \<and> started a' = started ak @
                  [\<lparr>verseNumber = vnumber (verses ! k), startAt = max (nextStartTime l) (clock E k),
                    bufferDuration = d, playbackRate = rate\<rparr>]
             \<and> nextStartTime l' = max (nextStartTime l) (clock E k) + d / rate))"
proof (intro conjI allI impI)
  let ?new = "planned rate (clock_start E) (observed E verses 0)"
  have nc: "\<not> controllers (snd (streamAndPlay E verses rate c a)) c"
    using run_no_cancel_events[OF assms(1,2)] .
  show "started (snd (streamAndPlay E verses rate c a)) = started a @ ?new"
    using run_not_cancelled(1)[OF nc] .
  have pos: "durations_positive (observed E verses 0)" using observed_positive assms(4) by blast
  have num: "map verseNumber ?new
      = map (\<lambda>i. vnumber (verses ! i)) (filter (\<lambda>i. fetched E i \<noteq> None) [0..<length verses])"
    unfolding planned_numbers observed_numbers ..
  show "map verseNumber ?new
      = map (\<lambda>i. vnumber (verses ! i)) (filter (\<lambda>i. fetched E i \<noteq> None) [0..<length verses])"
    using num .
  have "length ?new = length (filter (\<lambda>i. fetched E i \<noteq> None) [0..<length verses])"
    using arg_cong[OF num, of length] by simp
  also have "\<dots> = length [0..<length verses]
        - length (filter (\<lambda>i. \<not> fetched E i \<noteq> None) [0..<length verses])"
    by (rule length_filter_complement)
  finally show "length ?new
      = length verses - length (filter (\<lambda>i. fetched E i = None) [0..<length verses])"
    by simp
  show "sorted_wrt (<) (map startAt ?new)" using planned_increasing[OF assms(3) pos] .
  show "sorted_wrt (\<lambda>s t. clip_end s \<le> startAt t) ?new" using planned_no_overlap[OF assms(3) pos] .
next
  fix k l ak d
  assume h: "reached E verses rate c a k = Some (l, ak) \<and> k < length verses \<and> fetched E k = Some d"
  then have nc: "Cancel \<notin> set (events E k)" using assms(2) by simp
  have r: "reached E verses rate c a (Suc k) = Some (after_await E verses rate c k (l, ak))"
    using reached_step[OF _ _ assms(1) nc] h by simp
  obtain l' a' where s: "after_await E verses rate c k (l, ak) = (l', a')"
    by (cases "after_await E verses rate c k (l, ak)")
  have "started a' = started ak @
                  [\<lparr>verseNumber = vnumber (verses ! k), startAt = max (nextStartTime l) (clock E k),
                    bufferDuration = d, playbackRate = rate\<rparr>]"
    "nextStartTime l' = max (nextStartTime l) (clock E k) + d / rate"
    using after_await_facts(4,5)[of E verses rate c k l ak] s h by simp_all
  then show "\<exists>l' a'. reached E verses rate c a (Suc k) = Some (l', a')
             \<and> started a' = started ak @
                  [\<lparr>verseNumber = vnumber (verses ! k), startAt = max (nextStartTime l) (clock E k),
                    bufferDuration = d, playbackRate = rate\<rparr>]
             \<and> nextStartTime l' = max (nextStartTime l) (clock E k) + d / rate"
    using r s by simp
qed

theorem sequencer_schedule_witness:
  "\<not> controllers fresh_app 0
   \<and> length two_verses = 2
   \<and> Cancel \<notin> set (events two_env 0) \<and> Cancel \<notin> set (events two_env 1)
   \<and> (0::rat) < 1
   \<and> fetched two_env 1 = Some (3 / 2)
   \<and> started (snd (streamAndPlay two_env two_verses 1 0 fresh_app))
       = [\<lparr>verseNumber = ''1'', startAt = 0, bufferDuration = 1, playbackRate = 1\<rparr>,
          \<lparr>verseNumber = ''2'', startAt = 1, bufferDuration = 3 / 2, playbackRate = 1\<rparr>]
   \<and> reached two_env two_verses 1 0 fresh_app 0 = Some (loop_entry two_env two_verses fresh_app)
   \<and> fetched two_env 0 = Some 1"
proof -
  have h1: "\<not> controllers fresh_app 0" by (simp add: fresh_app_def no_flags_def)
  have h2: "\<forall>i<length two_verses. Cancel \<notin> set (events two_env i)"
    by (simp add: two_env_def no_events_def)
  have h3: "(0::rat) < 1" by simp
  have h4: "\<forall>i<length two_verses. \<forall>d. fetched two_env i = Some d \<longrightarrow> 0 < d"
    by (auto simp: two_env_def fetched_two_def split: if_splits)
  have p: "planned 1 (clock_start two_env) (observed two_env two_verses 0)
       = [\<lparr>verseNumber = ''1'', startAt = 0, bufferDuration = 1, playbackRate = 1\<rparr>,
          \<lparr>verseNumber = ''2'', startAt = 1, bufferDuration = 3 / 2, playbackRate = 1\<rparr>]"
    by (simp add: observed_def two_env_def two_verses_def fetched_two_def clock_zero_def upt_rec)
  have s: "started fresh_app = []" by (simp add: fresh_app_def)
  have f: "fetched two_env 0 = Some 1" by (simp add: two_env_def fetched_two_def)
  have g: "length two_verses = 2" "Cancel \<notin> set (events two_env 0)"
    "Cancel \<notin> set (events two_env 1)" "fetched two_env 1 = Some (3 / 2)"
    by (simp_all add: two_verses_def two_env_def no_events_def fetched_two_def)
  show ?thesis
    using h1 h3 f g sequencer_schedule[OF h1 h2 h3 h4] p s by simp
qed

text \<open>
  Claim C3: in a run that is not cancelled, a verse \<open>k\<close> whose fetch or decode raises
  (so that \<^verbatim>\<open>fetchAndDecode\<close> returns \<^verbatim>\<open>null\<close>) is logged and passed over: the run reaches
  iteration \<open>k\<close> and goes on to iteration \<open>k + 1\<close> with \<open>nextStartTime\<close> as it was,
  no source started, no timeout set and no source added; and every later verse whose
  fetch succeeds is started.
\<close>

theorem failed_verse_is_skipped:
  assumes "\<not> controllers a c"
    and "\<forall>i<length verses. Cancel \<notin> set (events E i)"
    and "k < length verses"
    and "fetched E k = fetchAndDecode t"
    and "pronunciation t = None \<or> decoded t = None"
  shows "(\<exists>l ak l' a'. reached E verses rate c a k = Some (l, ak)
            \<and> reached E verses rate c a (Suc k) = Some (l', a')
            \<and> nextStartTime l' = nextStartTime l
            \<and> started a' = started ak
            \<and> timeouts a' = timeouts ak
            \<and> set (activeAudioSources a') \<subseteq> set (activeAudioSources ak)
            \<and> console_errors a' = console_errors ak @ [vnumber (verses ! k)])
     \<and> (\<forall>j d. k < j \<and> j < length verses \<and> fetched E j = Some d \<longrightarrow>
           (\<exists>s \<in> set (started (snd (streamAndPlay E verses rate c a))).
              verseNumber s = vnumber (verses ! j) \<and> bufferDuration s = d))"
proof (intro conjI allI impI)
  have failed: "fetched E k = None"
    using assms(4,5) by (auto simp: fetchAndDecode_def split: option.splits)
  obtain l ak where r: "reached E verses rate c a k = Some (l, ak)"
    using reached_no_cancel[OF assms(1,2), of k rate] assms(3) by fastforce
  have nc: "Cancel \<notin> set (events E k)" using assms(2,3) by simp
  have r': "reached E verses rate c a (Suc k) = Some (after_await E verses rate c k (l, ak))"
    using reached_step[OF r assms(3,1) nc] .
  obtain l' a' where s: "after_await E verses rate c k (l, ak) = (l', a')"
    by (cases "after_await E verses rate c k (l, ak)")
  have f: "nextStartTime l' = nextStartTime l" "started a' = started ak"
    using after_await_facts(4,5)[of E verses rate c k l ak] s failed by simp_all
  have g: "timeouts a' = timeouts ak"
    "console_errors a' = console_errors ak @ [vnumber (verses ! k)]"
    "activeAudioSources a' = activeAudioSources (fold (handle c) (events E k) ak)"
    using s failed by (auto simp: after_await_def fold_handle_keeps_logs)
  have h: "set (activeAudioSources a') \<subseteq> set (activeAudioSources ak)"
    using g(3) fold_active_subset by simp
  show "\<exists>l ak l' a'. reached E verses rate c a k = Some (l, ak)
            \<and> reached E verses rate c a (Suc k) = Some (l', a')
            \<and> nextStartTime l' = nextStartTime l
            \<and> started a' = started ak
            \<and> timeouts a' = timeouts ak
            \<and> set (activeAudioSources a') \<subseteq> set (activeAudioSources ak)
            \<and> console_errors a' = console_errors ak @ [vnumber (verses ! k)]"
    using r r' s f g(1,2) h by auto
next
  fix j d
  assume j: "k < j \<and> j < length verses \<and> fetched E j = Some d"
  have nc: "\<not> controllers (snd (streamAndPlay E verses rate c a)) c"
    using run_no_cancel_events[OF assms(1,2)] .
  have st: "started (snd (streamAndPlay E verses rate c a))
           = started a @ planned rate (clock_start E) (observed E verses 0)"
    using run_not_cancelled(1)[OF nc] .
  have "(vnumber (verses ! j), Some d, clock E j) \<in> set (observed E verses 0)"
    using j by (auto simp: observed_def)
  then have "\<exists>s \<in> set (planned rate (clock_start E) (observed E verses 0)).
      verseNumber s = vnumber (verses ! j) \<and> bufferDuration s = d"
    by (rule planned_member)
  then show "\<exists>s \<in> set (started (snd (streamAndPlay E verses rate c a))).
              verseNumber s = vnumber (verses ! j) \<and> bufferDuration s = d"
    using st by auto
qed

theorem failed_verse_is_skipped_witness:
  "\<not> controllers fresh_app 0
   \<and> length two_verses = 2
   \<and> Cancel \<notin> set (events failing_env 0) \<and> Cancel \<notin> set (events failing_env 1)
   \<and> fetched failing_env 0 = fetchAndDecode attempt_without_audio
   \<and> pronunciation attempt_without_audio = None
   \<and> fetched failing_env 1 = Some (3 / 2)
   \<and> map verseNumber (started (snd (streamAndPlay failing_env two_verses 1 0 fresh_app))) = [''2'']
   \<and> map startAt (started (snd (streamAndPlay failing_env two_verses 1 0 fresh_app))) = [0]"
proof -
  have h1: "\<not> controllers fresh_app 0" by (simp add: fresh_app_def no_flags_def)
  have h2: "\<forall>i<length two_verses. Cancel \<notin> set (events failing_env i)"
    by (simp add: failing_env_def no_events_def)
  have h3: "0 < length two_verses" by (simp add: two_verses_def)
  have h4: "fetched failing_env 0 = None" by (simp add: failing_env_def fetched_second_only_def)
  have h5: "fetched failing_env 0 = fetchAndDecode attempt_without_audio"
    by (simp add: failing_env_def fetched_second_only_def fetchAndDecode_def attempt_without_audio_def)
  have h6: "pronunciation attempt_without_audio = None \<or> decoded attempt_without_audio = None"
    by (simp add: attempt_without_audio_def)
  have g: "length two_verses = 2" "Cancel \<notin> set (events failing_env 0)"
    "Cancel \<notin> set (events failing_env 1)" "fetched failing_env 1 = Some (3 / 2)"
    by (simp_all add: two_verses_def failing_env_def no_events_def fetched_second_only_def)
  have e: "map verseNumber (started (snd (streamAndPlay failing_env two_verses 1 0 fresh_app))) = [''2'']"
    "map startAt (started (snd (streamAndPlay failing_env two_verses 1 0 fresh_app))) = [0]"
    by (simp_all add: run_defs)
  have p: "pronunciation attempt_without_audio = None" by (simp add: attempt_without_audio_def)
  note T = failed_verse_is_skipped[OF h1 h2 h3 h5 h6, of 1]
  show ?thesis using h1 h4 h5 p g e T by simp
qed

text \<open>
  Claim C4: when the loop is over and the controller is not cancelled, one more timeout
  is set, with the delay \<open>max 0 ((nextStartTime - currentTime) * 1000) + 500\<close> ms, where
  \<open>nextStartTime\<close> is the end of the last clip started (or the starting clock reading
  if none was); a cancelled session sets none. For the two-verse chapter with clips of
  1.0 s and 1.5 s at rate 1.0 and the clock at 0, verse 1 starts at 0, verse 2 at 1.0
  and the cleanup is set 3000 ms ahead, that is at 3.0.
\<close>

theorem final_cleanup_timeout:
  "(\<not> controllers (snd (streamAndPlay E verses rate c a)) c \<longrightarrow>
      timeouts (snd (streamAndPlay E verses rate c a))
        = timeouts (snd (loop E verses rate c 0 (loop_entry E verses a)))
          @ [FinalCleanupTimeout
               (max 0 ((nextStartTime (fst (streamAndPlay E verses rate c a)) - clock_end E) * 1000)
                + 500)]
      \<and> nextStartTime (fst (streamAndPlay E verses rate c a))
        = (if planned rate (clock_start E) (observed E verses 0) = [] then clock_start E
           else clip_end (last (planned rate (clock_start E) (observed E verses 0))))
      \<and> started (snd (streamAndPlay E verses rate c a))
        = started a @ planned rate (clock_start E) (observed E verses 0))
   \<and> (controllers (snd (streamAndPlay E verses rate c a)) c \<longrightarrow>
        timeouts (snd (streamAndPlay E verses rate c a))
          = timeouts (snd (loop E verses rate c 0 (loop_entry E verses a))))
   \<and> started (snd (streamAndPlay two_env two_verses 1 0 fresh_app))
       = [\<lparr>verseNumber = ''1'', startAt = 0, bufferDuration = 1, playbackRate = 1\<rparr>,
          \<lparr>verseNumber = ''2'', startAt = 1, bufferDuration = 3 / 2, playbackRate = 1\<rparr>]
   \<and> timeouts (snd (streamAndPlay two_env two_verses 1 0 fresh_app))
       = [HighlightTimeout ''1'' 0, HighlightTimeout ''2'' 1000, FinalCleanupTimeout 3000]"
proof (intro conjI impI)
  assume nc: "\<not> controllers (snd (streamAndPlay E verses rate c a)) c"
  then have "\<not> controllers (snd (loop E verses rate c 0 (loop_entry E verses a))) c"
    by (simp add: streamAndPlay_started)
  then show "timeouts (snd (streamAndPlay E verses rate c a))
        = timeouts (snd (loop E verses rate c 0 (loop_entry E verses a)))
          @ [FinalCleanupTimeout
               (max 0 ((nextStartTime (fst (streamAndPlay E verses rate c a)) - clock_end E) * 1000)
                + 500)]"
    by (auto simp: streamAndPlay_def simp del: loop.simps split: prod.splits)
  show "nextStartTime (fst (streamAndPlay E verses rate c a))
        = (if planned rate (clock_start E) (observed E verses 0) = [] then clock_start E
           else clip_end (last (planned rate (clock_start E) (observed E verses 0))))"
    using run_not_cancelled(2)[OF nc] planned_next_last[of rate "clock_start E" "observed E verses 0"]
    by simp
  show "started (snd (streamAndPlay E verses rate c a))
        = started a @ planned rate (clock_start E) (observed E verses 0)"
    using run_not_cancelled(1)[OF nc] .
next
  assume "controllers (snd (streamAndPlay E verses rate c a)) c"
  then have "controllers (snd (loop E verses rate c 0 (loop_entry E verses a))) c"
    by (simp add: streamAndPlay_started)
  then show "timeouts (snd (streamAndPlay E verses rate c a))
          = timeouts (snd (loop E verses rate c 0 (loop_entry E verses a)))"
    by (auto simp: streamAndPlay_def simp del: loop.simps split: prod.splits)
next
  show "started (snd (streamAndPlay two_env two_verses 1 0 fresh_app))
       = [\<lparr>verseNumber = ''1'', startAt = 0, bufferDuration = 1, playbackRate = 1\<rparr>,
          \<lparr>verseNumber = ''2'', startAt = 1, bufferDuration = 3 / 2, playbackRate = 1\<rparr>]"
    by (simp add: run_defs)
  show "timeouts (snd (streamAndPlay two_env two_verses 1 0 fresh_app))
       = [HighlightTimeout ''1'' 0, HighlightTimeout ''2'' 1000, FinalCleanupTimeout 3000]"
    by (simp add: run_defs)
qed

theorem final_cleanup_timeout_witness:
  "\<not> controllers (snd (streamAndPlay two_env two_verses 1 0 fresh_app)) 0
   \<and> nextStartTime (fst (streamAndPlay two_env two_verses 1 0 fresh_app)) = 5 / 2
   \<and> max 0 ((nextStartTime (fst (streamAndPlay two_env two_verses 1 0 fresh_app))
              - clock_end two_env) * 1000) + 500 = 3000
   \<and> controllers (snd (streamAndPlay cancel_env two_verses 1 0 fresh_app)) 0
   \<and> timeouts (snd (streamAndPlay cancel_env two_verses 1 0 fresh_app)) = [HighlightTimeout ''1'' 0]"
proof -
  have h1: "\<not> controllers (snd (streamAndPlay two_env two_verses 1 0 fresh_app)) 0"
    by (simp add: run_defs)
  have p: "planned 1 (clock_start two_env) (observed two_env two_verses 0)
       = [\<lparr>verseNumber = ''1'', startAt = 0, bufferDuration = 1, playbackRate = 1\<rparr>,
          \<lparr>verseNumber = ''2'', startAt = 1, bufferDuration = 3 / 2, playbackRate = 1\<rparr>]"
    by (simp add: observed_def two_env_def two_verses_def fetched_two_def clock_zero_def upt_rec)
  have n: "nextStartTime (fst (streamAndPlay two_env two_verses 1 0 fresh_app)) = 5 / 2"
    using h1 p final_cleanup_timeout[of two_env two_verses 1 0 fresh_app]
    by (simp add: clip_end_def)
  have ce: "clock_end two_env = 0" by (simp add: two_env_def)
  have h2: "controllers (snd (streamAndPlay cancel_env two_verses 1 0 fresh_app)) 0"
    by (simp add: run_defs)
  have l: "timeouts (snd (loop cancel_env two_verses 1 0 0 (loop_entry cancel_env two_verses fresh_app)))
           = [HighlightTimeout ''1'' 0]"
    by (simp add: run_defs)
  have t: "timeouts (snd (streamAndPlay cancel_env two_verses 1 0 fresh_app)) = [HighlightTimeout ''1'' 0]"
    using h2 l final_cleanup_timeout[of cancel_env two_verses 1 0 fresh_app] by simp
  show ?thesis using h1 n ce h2 t by simp
qed

text \<open>
  What a cancellation does. Let \<^verbatim>\<open>cleanupChapterAudio\<close> run while the live session awaits
  the audio of verse \<open>k\<close>, for any \<open>k\<close> the run reaches. Then the run starts no source
  and sets no timeout after that point, not the final one either; no source is left
  active, and every source that the session has started has been stopped by the
  cleanup or had ended by itself; the state reported is \<^verbatim>\<open>idle\<close>; the controller is
  flagged, and with the flag set every further pass through the loop body breaks at
  once and every highlight timeout that fires leaves the state alone.
\<close>

lemma cancel_during_loop:
  assumes "reached E verses rate c a k = Some (l, ak)"
    and "k < length verses"
    and "\<not> controllers a c"
    and "playbackController a = Some c"
    and "Cancel \<in> set (events E k)"
  shows "started (snd (streamAndPlay E verses rate c a)) = started ak
     \<and> timeouts (snd (streamAndPlay E verses rate c a)) = timeouts ak
     \<and> activeAudioSources (snd (streamAndPlay E verses rate c a)) = []
     \<and> set (started (snd (streamAndPlay E verses rate c a)))
          \<subseteq> set (started a) \<union> set (stopped (snd (streamAndPlay E verses rate c a)))
             \<union> {s. \<exists>i\<le>k. Ended s \<in> set (events E i)}
     \<and> chapterAudioState (snd (streamAndPlay E verses rate c a)) = Idle
     \<and> currentlyPlayingVerse (snd (streamAndPlay E verses rate c a)) = None
     \<and> controllers (snd (streamAndPlay E verses rate c a)) c
     \<and> (\<forall>i l'. iteration E verses rate c i (l', snd (streamAndPlay E verses rate c a))
                  = Break (l', snd (streamAndPlay E verses rate c a)))
     \<and> (\<forall>vn. handle c (HighlightFires vn) (snd (streamAndPlay E verses rate c a))
               = snd (streamAndPlay E verses rate c a))
     \<and> finalCleanupFires (snd (streamAndPlay E verses rate c a))
         = snd (streamAndPlay E verses rate c a)"
proof -
  let ?a1 = "fold (handle c) (events E k) ak"
  let ?l1 = "l\<lparr>audioPromises := window verses (Suc k)\<rparr>"
  have inv: "audioPromises l = window verses k" "\<not> controllers ak c"
    using reached_inv[OF assms(1,3)] by auto
  have pc: "playbackController ak = Some c" using reached_controller[OF assms(1,3,4)] .
  have td: "torn_down c ?a1" using fold_cancel_torn_down[OF pc assms(5)] .
  then have fl: "controllers ?a1 c" by (simp add: torn_down_def)
  have it: "iteration E verses rate c k (l, ak) = Break (?l1, ?a1)"
    using iteration_window[OF assms(2) inv(1), of E rate c ak] inv(2) fl by simp
  have "loop E verses rate c k (l, ak) = (?l1, ?a1)"
    using assms(2) it by (subst loop.simps) simp
  then have lp: "loop E verses rate c 0 (loop_entry E verses a) = (?l1, ?a1)"
    using loop_reached[OF assms(1)] by simp
  have af: "snd (streamAndPlay E verses rate c a) = ?a1"
    unfolding streamAndPlay_def lp using fl by simp
  have acc: "set (started ak) \<subseteq> set (started a) \<union> set (activeAudioSources ak) \<union> set (stopped ak)
      \<union> {s. \<exists>i<k. Ended s \<in> set (events E i)}"
    using reached_started_accounted[OF assms(1,3)] .
  have src: "set (activeAudioSources ak) \<union> set (stopped ak)
      \<subseteq> set (stopped ?a1) \<union> {s. Ended s \<in> set (events E k)}"
    using fold_sources_accounted[of ak c "events E k"] td by (auto simp: torn_down_def)
  have st: "started ?a1 = started ak" using fold_handle_keeps_logs[of c "events E k" ak] by simp
  have link: "set (started ?a1) \<subseteq> set (started a) \<union> set (stopped ?a1)
             \<union> {s. \<exists>i\<le>k. Ended s \<in> set (events E i)}"
  proof
    fix s assume "s \<in> set (started ?a1)"
    then have "s \<in> set (started a) \<union> set (activeAudioSources ak) \<union> set (stopped ak)
      \<union> {s. \<exists>i<k. Ended s \<in> set (events E i)}" using acc st by auto
    then consider "s \<in> set (started a)" | "s \<in> set (activeAudioSources ak) \<union> set (stopped ak)"
      | "\<exists>i<k. Ended s \<in> set (events E i)" by auto
    then show "s \<in> set (started a) \<union> set (stopped ?a1)
             \<union> {s. \<exists>i\<le>k. Ended s \<in> set (events E i)}"
    proof cases
      case 1
      then show ?thesis by simp
    next
      case 2
      then have "s \<in> set (stopped ?a1) \<union> {s. Ended s \<in> set (events E k)}" using src by auto
      then show ?thesis by auto
    next
      case 3
      then obtain i where "i < k" "Ended s \<in> set (events E i)" by auto
      then have "\<exists>i\<le>k. Ended s \<in> set (events E i)" by (intro exI[of _ i]) simp
      then show ?thesis by simp
    qed
  qed
  show ?thesis
    unfolding af
    using td link fold_handle_keeps_logs[of c "events E k" ak] iteration_cancelled[OF fl]
      torn_down_final_timeout[OF td]
    by (simp add: torn_down_def)
qed

lemma cancel_during_loop_example:
  "reached cancel_env two_verses 1 0 fresh_app 1 \<noteq> None
   \<and> (1::nat) < length two_verses
   \<and> \<not> controllers fresh_app 0
   \<and> playbackController fresh_app = Some 0
   \<and> Cancel \<in> set (events cancel_env 1)
   \<and> map verseNumber (started (snd (streamAndPlay cancel_env two_verses 1 0 fresh_app))) = [''1'']
   \<and> activeAudioSources (snd (streamAndPlay cancel_env two_verses 1 0 fresh_app)) = []
   \<and> map verseNumber (stopped (snd (streamAndPlay cancel_env two_verses 1 0 fresh_app))) = [''1'']
   \<and> chapterAudioState (snd (streamAndPlay cancel_env two_verses 1 0 fresh_app)) = Idle
   \<and> controllers (snd (streamAndPlay cancel_env two_verses 1 0 fresh_app)) 0"
proof -
  obtain l ak where r: "reached cancel_env two_verses 1 0 fresh_app 1 = Some (l, ak)"
    and s: "map verseNumber (started ak) = [''1'']"
    by (simp add: run_defs numeral_2_eq_2)
  have h2: "(1::nat) < length two_verses" by (simp add: two_verses_def)
  have h3: "\<not> controllers fresh_app 0" by (simp add: fresh_app_def no_flags_def)
  have h4: "playbackController fresh_app = Some 0" by (simp add: fresh_app_def)
  have h5: "Cancel \<in> set (events cancel_env 1)" by (simp add: cancel_env_def cancel_second_def)
  have st: "map verseNumber (stopped (snd (streamAndPlay cancel_env two_verses 1 0 fresh_app))) = [''1'']"
    by (simp add: run_defs)
  note T = cancel_during_loop[OF r h2 h3 h4 h5]
  show ?thesis using r s h2 h3 h4 h5 st T by simp
qed

text \<open>
  The same when \<^verbatim>\<open>cleanupChapterAudio\<close> runs after the loop has ended, while the clips
  it has scheduled are still playing (the events \<open>evs\<close> are what happens then). If no
  other session is started, the final timeout, which is pending, finds nothing to do
  when it fires.
\<close>

lemma cancel_after_loop:
  assumes "\<not> controllers a c"
    and "playbackController a = Some c"
    and "\<forall>i<length verses. Cancel \<notin> set (events E i)"
    and "Cancel \<in> set evs"
  shows "started (fold (handle c) evs (snd (streamAndPlay E verses rate c a)))
           = started (snd (streamAndPlay E verses rate c a))
     \<and> timeouts (fold (handle c) evs (snd (streamAndPlay E verses rate c a)))
           = timeouts (snd (streamAndPlay E verses rate c a))
     \<and> activeAudioSources (fold (handle c) evs (snd (streamAndPlay E verses rate c a))) = []
     \<and> set (started (snd (streamAndPlay E verses rate c a)))
          \<subseteq> set (started a)
             \<union> set (stopped (fold (handle c) evs (snd (streamAndPlay E verses rate c a))))
             \<union> {s. \<exists>i<length verses. Ended s \<in> set (events E i)} \<union> {s. Ended s \<in> set evs}
     \<and> chapterAudioState (fold (handle c) evs (snd (streamAndPlay E verses rate c a))) = Idle
     \<and> currentlyPlayingVerse (fold (handle c) evs (snd (streamAndPlay E verses rate c a))) = None
     \<and> controllers (fold (handle c) evs (snd (streamAndPlay E verses rate c a))) c
     \<and> (\<forall>vn. handle c (HighlightFires vn) (fold (handle c) evs (snd (streamAndPlay E verses rate c a)))
               = fold (handle c) evs (snd (streamAndPlay E verses rate c a)))
     \<and> finalCleanupFires (fold (handle c) evs (snd (streamAndPlay E verses rate c a)))
         = fold (handle c) evs (snd (streamAndPlay E verses rate c a))"
proof -
  let ?n = "length verses"
  let ?af = "snd (streamAndPlay E verses rate c a)"
  let ?z = "fold (handle c) evs ?af"
  obtain l ak where r: "reached E verses rate c a ?n = Some (l, ak)"
    using reached_no_cancel[OF assms(1,3), of ?n rate] by auto
  have inv: "\<not> controllers ak c" using reached_inv[OF r assms(1)] by simp
  have pc: "playbackController ak = Some c" using reached_controller[OF r assms(1,2)] .
  have "loop E verses rate c ?n (l, ak) = (l, ak)" by (subst loop.simps) simp
  then have lp: "loop E verses rate c 0 (loop_entry E verses a) = (l, ak)"
    using loop_reached[OF r] by simp
  have af: "?af = ak\<lparr>timeouts := timeouts ak @
      [FinalCleanupTimeout (max 0 ((nextStartTime l - clock_end E) * 1000) + 500)]\<rparr>"
    unfolding streamAndPlay_def lp using inv by simp
  have pcf: "playbackController ?af = Some c" unfolding af using pc by simp
  have td: "torn_down c ?z" using fold_cancel_torn_down[OF pcf assms(4)] .
  then have fl: "controllers ?z c" by (simp add: torn_down_def)
  have acc: "set (started ak) \<subseteq> set (started a) \<union> set (activeAudioSources ak) \<union> set (stopped ak)
      \<union> {s. \<exists>i<?n. Ended s \<in> set (events E i)}"
    using reached_started_accounted[OF r assms(1)] .
  have same: "started ?af = started ak" "activeAudioSources ?af = activeAudioSources ak"
    "stopped ?af = stopped ak"
    unfolding af by simp_all
  have src: "set (activeAudioSources ?af) \<union> set (stopped ?af)
      \<subseteq> set (stopped ?z) \<union> {s. Ended s \<in> set evs}"
    using fold_sources_accounted[of ?af c evs] td by (auto simp: torn_down_def)
  have link: "set (started ?af) \<subseteq> set (started a) \<union> set (stopped ?z)
             \<union> {s. \<exists>i<?n. Ended s \<in> set (events E i)} \<union> {s. Ended s \<in> set evs}"
    using acc src unfolding same by blast
  show ?thesis
    using td link fold_handle_keeps_logs[of c evs ?af] torn_down_final_timeout[OF td]
    by (simp add: torn_down_def)
qed

text \<open>
  Claim C2: once a session is cancelled, every suspension point checks the session's
  flag before it produces a further effect. The callback of the final timeout does
  not: it reads \<^verbatim>\<open>playbackController.current\<close>, the controller of whichever session is
  live when it fires (line 291), where the highlight timeout and the \<^verbatim>\<open>catch\<close> handler
  read the \<^verbatim>\<open>controller\<close> of their own session (lines 267 and 299). In the run below the
  first session has set its final timeout for 10.5 s, is stopped, and a second session
  is started at 2 s, whose clip plays until 12 s. The first session is flagged; its
  highlight timeout, if it fires now, leaves the state alone. When its final timeout
  fires, the second session is live and not flagged, so the callback runs
  \<^verbatim>\<open>cleanupChapterAudio\<close>: the second session is cancelled, its clip is stopped, and the
  state is \<^verbatim>\<open>idle\<close>.
\<close>

theorem stale_final_timeout_stops_next_session:
  "timeouts first_session = [HighlightTimeout ''1'' 0, FinalCleanupTimeout 10500]
   \<and> controllers first_session_stopped 0
   \<and> playbackController first_session_stopped = None
   \<and> chapterAudioState first_session_stopped = Idle
   \<and> controllers second_session 0
   \<and> playbackController second_session = Some 1
   \<and> \<not> controllers second_session 1
   \<and> chapterAudioState second_session = Playing
   \<and> activeAudioSources second_session
       = [\<lparr>verseNumber = ''1'', startAt = 2, bufferDuration = 10, playbackRate = 1\<rparr>]
   \<and> clip_end \<lparr>verseNumber = ''1'', startAt = 2, bufferDuration = 10, playbackRate = 1\<rparr> = 12
   \<and> handle 0 (HighlightFires ''1'') second_session = second_session
   \<and> controllers (finalCleanupFires second_session) 1
   \<and> playbackController (finalCleanupFires second_session) = None
   \<and> activeAudioSources (finalCleanupFires second_session) = []
   \<and> stopped (finalCleanupFires second_session)
       = [\<lparr>verseNumber = ''1'', startAt = 0, bufferDuration = 10, playbackRate = 1\<rparr>,
          \<lparr>verseNumber = ''1'', startAt = 2, bufferDuration = 10, playbackRate = 1\<rparr>]
   \<and> chapterAudioState (finalCleanupFires second_session) = Idle"
proof -
  have c: "controllers second_session 0" by code_simp
  have h: "handle 0 (HighlightFires ''1'') second_session = second_session"
    using c by simp
  have r: "timeouts first_session = [HighlightTimeout ''1'' 0, FinalCleanupTimeout 10500]
   \<and> controllers first_session_stopped 0
   \<and> playbackController first_session_stopped = None
   \<and> chapterAudioState first_session_stopped = Idle
   \<and> playbackController second_session = Some 1
   \<and> \<not> controllers second_session 1
   \<and> chapterAudioState second_session = Playing
   \<and> activeAudioSources second_session
       = [\<lparr>verseNumber = ''1'', startAt = 2, bufferDuration = 10, playbackRate = 1\<rparr>]
   \<and> clip_end \<lparr>verseNumber = ''1'', startAt = 2, bufferDuration = 10, playbackRate = 1\<rparr> = 12
   \<and> controllers (finalCleanupFires second_session) 1
   \<and> playbackController (finalCleanupFires second_session) = None
   \<and> activeAudioSources (finalCleanupFires second_session) = []
   \<and> stopped (finalCleanupFires second_session)
       = [\<lparr>verseNumber = ''1'', startAt = 0, bufferDuration = 10, playbackRate = 1\<rparr>,
          \<lparr>verseNumber = ''1'', startAt = 2, bufferDuration = 10, playbackRate = 1\<rparr>]
   \<and> chapterAudioState (finalCleanupFires second_session) = Idle"
    by code_simp
  show ?thesis using c h r by blast
qed

section \<open>Properties of the highlight loop\<close>

lemma findIndex_range: "- 1 \<le> findIndex P xs \<and> findIndex P xs < int (length xs)"
  by (induction xs) auto

lemma findIndex_none: "findIndex P xs = - 1 \<longleftrightarrow> (\<forall>x \<in> set xs. \<not> P x)"
proof (induction xs)
  case Nil
  then show ?case by simp
next
  case (Cons x xs)
  have r: "- 1 \<le> findIndex P xs" using findIndex_range[of P xs] by simp
  show ?case
  proof (cases "P x")
    case True
    then show ?thesis by simp
  next
    case False
    have "findIndex P (x # xs) = - 1 \<longleftrightarrow> findIndex P xs = - 1"
      using False r by auto
    then show ?thesis using Cons.IH False by simp
  qed
qed

lemma findIndex_neg: "findIndex P xs < 0 \<longleftrightarrow> findIndex P xs = - 1"
  using findIndex_range[of P xs] by auto

lemma findIndex_first:
  "0 \<le> findIndex P xs \<Longrightarrow>
   nat (findIndex P xs) < length xs \<and> P (xs ! nat (findIndex P xs))
   \<and> (\<forall>j < nat (findIndex P xs). \<not> P (xs ! j))"
proof (induction xs)
  case Nil
  then show ?case by simp
next
  case (Cons x xs)
  show ?case
  proof (cases "P x")
    case True
    then show ?thesis by simp
  next
    case False
    then have nn: "0 \<le> findIndex P xs" using Cons.prems by (auto split: if_splits)
    then have e: "findIndex P (x # xs) = findIndex P xs + 1" using False by simp
    then have n: "nat (findIndex P (x # xs)) = Suc (nat (findIndex P xs))" using nn by simp
    have ih: "nat (findIndex P xs) < length xs \<and> P (xs ! nat (findIndex P xs))
              \<and> (\<forall>j < nat (findIndex P xs). \<not> P (xs ! j))"
      using Cons.IH[OF nn] .
    show ?thesis unfolding n using ih False by (auto simp: nth_Cons split: nat.splits)
  qed
qed

text \<open>
  Claim C5: a run of the callback that finds its own source handle live (the clock
  being at or past the start reading, as it always is on a clock that does not run
  backwards) sets the highlight index to \<open>findIndex\<close> of the segments at the elapsed
  milliseconds and requests the next frame; that index is \<open>-1\<close> exactly when no segment
  covers the elapsed time, and otherwise the index of the first segment that covers it.
  A run that finds another handle, or none, clears the frame request and requests no
  frame: the loop ends there, whatever frames might follow.
\<close>

theorem highlight_follows_playback:
  "(liveSource f = Some source \<and> playbackStartTime \<le> currentTime f \<longrightarrow>
      highlightedIndex (onPlaybackUpdate source playbackStartTime analysis f h)
        = findIndex (covers ((currentTime f - playbackStartTime) * 1000)) analysis
      \<and> animationFrameRef (onPlaybackUpdate source playbackStartTime analysis f h) \<noteq> None)
   \<and> (findIndex (covers ms) analysis = - 1 \<longleftrightarrow> (\<forall>item \<in> set analysis. \<not> covers ms item))
   \<and> (findIndex (covers ms) analysis \<noteq> - 1 \<longrightarrow>
        0 \<le> findIndex (covers ms) analysis
        \<and> nat (findIndex (covers ms) analysis) < length analysis
        \<and> covers ms (analysis ! nat (findIndex (covers ms) analysis))
        \<and> (\<forall>j < nat (findIndex (covers ms) analysis). \<not> covers ms (analysis ! j)))
   \<and> (liveSource f \<noteq> Some source \<longrightarrow>
        onPlaybackUpdate source playbackStartTime analysis f h = h\<lparr>animationFrameRef := None\<rparr>
        \<and> playback_loop source playbackStartTime analysis (f # fs) h = h\<lparr>animationFrameRef := None\<rparr>)"
proof (intro conjI impI)
  assume "liveSource f = Some source \<and> playbackStartTime \<le> currentTime f"
  then show "highlightedIndex (onPlaybackUpdate source playbackStartTime analysis f h)
        = findIndex (covers ((currentTime f - playbackStartTime) * 1000)) analysis"
    and "animationFrameRef (onPlaybackUpdate source playbackStartTime analysis f h) \<noteq> None"
    by (simp_all add: onPlaybackUpdate_def requestAnimationFrame_def Let_def)
next
  show "findIndex (covers ms) analysis = - 1 \<longleftrightarrow> (\<forall>item \<in> set analysis. \<not> covers ms item)"
    by (rule findIndex_none)
next
  assume ne: "findIndex (covers ms) analysis \<noteq> - 1"
  then show nn: "0 \<le> findIndex (covers ms) analysis"
    using findIndex_range[of "covers ms" analysis] by linarith
  show "nat (findIndex (covers ms) analysis) < length analysis"
    and "covers ms (analysis ! nat (findIndex (covers ms) analysis))"
    and "\<forall>j < nat (findIndex (covers ms) analysis). \<not> covers ms (analysis ! j)"
    using findIndex_first[OF nn] by auto
next
  assume m: "liveSource f \<noteq> Some source"
  then show u: "onPlaybackUpdate source playbackStartTime analysis f h = h\<lparr>animationFrameRef := None\<rparr>"
    by (simp add: onPlaybackUpdate_def)
  show "playback_loop source playbackStartTime analysis (f # fs) h = h\<lparr>animationFrameRef := None\<rparr>"
  proof (cases "animationFrameRef h = None")
    case True
    then show ?thesis by simp
  next
    case False
    then show ?thesis using u by (cases fs) simp_all
  qed
qed

theorem highlight_follows_playback_witness:
  "liveSource frame_playing = Some 7
   \<and> (2::rat) \<le> currentTime frame_playing
   \<and> highlightedIndex (onPlaybackUpdate 7 2 sample_analysis frame_playing sample_highlighter) = 1
   \<and> covers 700 (sample_analysis ! 1)
   \<and> findIndex (covers 550) sample_analysis = - 1
   \<and> liveSource frame_superseded \<noteq> Some 7
   \<and> playback_loop 7 2 sample_analysis [frame_superseded, frame_playing] sample_highlighter
       = sample_highlighter\<lparr>animationFrameRef := None\<rparr>"
proof -
  have h1: "liveSource frame_playing = Some 7" "(2::rat) \<le> currentTime frame_playing"
    by (simp_all add: frame_playing_def)
  have e: "(currentTime frame_playing - 2) * 1000 = 700" by (simp add: frame_playing_def)
  have i1: "findIndex (covers 700) sample_analysis = 1"
    by (simp add: sample_analysis_def covers_def)
  have i2: "\<forall>item \<in> set sample_analysis. \<not> covers 550 item"
    by (simp add: sample_analysis_def covers_def)
  have h3: "liveSource frame_superseded \<noteq> Some 7" by (simp add: frame_superseded_def)
  note A = highlight_follows_playback[of frame_playing 7 2 sample_analysis sample_highlighter 700
      "[frame_playing]"]
  note B = highlight_follows_playback[of frame_superseded 7 2 sample_analysis sample_highlighter 550
      "[frame_playing]"]
  have "highlightedIndex (onPlaybackUpdate 7 2 sample_analysis frame_playing sample_highlighter)
        = findIndex (covers ((currentTime frame_playing - 2) * 1000)) sample_analysis"
    using A h1 by blast
  then have a1: "highlightedIndex (onPlaybackUpdate 7 2 sample_analysis frame_playing sample_highlighter) = 1"
    unfolding e i1 .
  have "covers 700 (sample_analysis ! nat (findIndex (covers 700) sample_analysis))"
    using A i1 by simp
  then have a2: "covers 700 (sample_analysis ! 1)" unfolding i1 by simp
  note a = a1 a2
  have b: "findIndex (covers 550) sample_analysis = - 1"
    "playback_loop 7 2 sample_analysis [frame_superseded, frame_playing] sample_highlighter
       = sample_highlighter\<lparr>animationFrameRef := None\<rparr>"
    using B h3 i2 by simp_all
  show ?thesis using h1 a b h3 by simp
qed

end
